theory Spec2Isabelle
  imports Main
begin

section \<open>Data model\<close>

text \<open>
  Modelled from the spec: the enumeration \<open>base\<close> of the four nucleotide symbols, which
  \<open>comparator.hpp\<close> uses (\<open>TELOMERE_SEQ = {T, T, A, G, G, G}\<close>) and a header that is not
  part of the sources at hand declares.
\<close>

datatype base = A | C | G | T

text \<open>
  Modelled from the spec: the packed representation (\<open>dna::pack\<close>, \<open>dna::packed_size\<close>),
  declared in a header that is not part of the sources at hand. A storage unit holds
  \<open>packed_size\<close> bases; the test fixtures build one with \<open>dna::pack(b0, b1, b2, b3)\<close>,
  so the packed factor is 4. Only the count per unit matters here, not the bit layout.
\<close>

type_synonym packed = "base \<times> base \<times> base \<times> base"

text \<open>Modelled from the spec: \<open>dna::pack\<close>, one storage unit from four bases.\<close>

definition pack :: "base \<Rightarrow> base \<Rightarrow> base \<Rightarrow> base \<Rightarrow> packed" where
  "pack b0 b1 b2 b3 = (b0, b1, b2, b3)"

text \<open>Modelled from the spec: \<open>dna::packed_size::value\<close>, the packed factor.\<close>

definition packed_size :: nat where
  "packed_size = 4"

text \<open>Modelled from the spec: the bases of one storage unit, in order.\<close>

fun unpack :: "packed \<Rightarrow> base list" where
  "unpack (b0, b1, b2, b3) = [b0, b1, b2, b3]"

text \<open>
  Modelled from the spec: the chunk \<open>read()\<close> returns, seen as the sequence of bases that
  \<open>buffer[i]\<close> indexes and \<open>buffer.size()\<close> counts.
\<close>

definition unpack_all :: "packed list \<Rightarrow> base list" where
  "unpack_all us = concat (map unpack us)"

text \<open>
  \<open>size_t\<close> is taken to be 64 bits wide: sizes and indices are naturals, and the
  wrap-around is written out wherever a product or a sum of \<open>getSex\<close> and \<open>getDataRange\<close>
  can leave the range. The differences of \<open>getDataRange\<close> cannot: it goes on only with
  \<open>data_end\<close> at least one period, and decrements \<open>data_end\<close> only above \<open>data_start\<close>.
\<close>

definition size_t :: "nat \<Rightarrow> nat" where
  "size_t n = n mod 2 ^ 64"

text \<open>
  Modelled from the spec: the Helix Stream (\<open>fake_stream\<close> of the test fixtures, declared
  in \<open>fake_person.hpp\<close>, which is not part of the sources at hand): a seekable, chunked
  source with the capabilities \<open>seek(unit_index)\<close>, \<open>read()\<close> (the next chunk of bases, of
  at most the stream's chunk size, counted in storage units) and \<open>size()\<close> (the total
  number of storage units).
\<close>

record fake_stream =
  m_data :: "packed list"
  m_chunk_size :: nat
  m_offset :: nat

text \<open>Modelled from the spec: \<open>seek(unit_index)\<close> positions the stream at a storage unit.\<close>

definition seek :: "nat \<Rightarrow> fake_stream \<Rightarrow> fake_stream" where
  "seek unit_index helix = helix\<lparr>m_offset := unit_index\<rparr>"

text \<open>
  Modelled from the spec: \<open>read()\<close> returns the next chunk, at most \<open>m_chunk_size\<close> storage
  units from the current position, and moves the position past it.
\<close>

definition read :: "fake_stream \<Rightarrow> base list \<times> fake_stream" where
  "read helix =
     (let chunk = take (m_chunk_size helix) (drop (m_offset helix) (m_data helix))
      in (unpack_all chunk, helix\<lparr>m_offset := m_offset helix + length chunk\<rparr>))"

text \<open>Modelled from the spec: \<open>size()\<close>, the total number of storage units.\<close>

definition size_h :: "fake_stream \<Rightarrow> nat" where
  "size_h helix = length (m_data helix)"

text \<open>
  Modelled from the spec: the Person capability (\<open>person.hpp\<close> is not part of the sources
  at hand): \<open>chromosomes()\<close> is the count, \<open>chromosome(index)\<close> the stream of one chromosome.
\<close>

record person =
  chromosomes :: nat
  chromosome :: "nat \<Rightarrow> fake_stream"

text \<open>\<open>struct Difference\<close>: a chromosome index and one \<open>[start, end)\<close> pair per sample.\<close>

record Difference =
  chromosome_idx :: nat
  person_a :: "nat \<times> nat"
  person_b :: "nat \<times> nat"

text \<open>
  Failures. \<open>InvalidInput\<close> is the \<open>std::invalid_argument\<close> thrown by \<open>compare\<close>.
  \<open>OutOfBounds i n\<close> stands for indexing the chunk returned by \<open>read()\<close> at position \<open>i\<close>
  when it holds only \<open>n\<close> bases: undefined behaviour in the source, a failure here.
\<close>

datatype error = InvalidInput | OutOfBounds nat nat

definition buffer_at :: "base list \<Rightarrow> nat \<Rightarrow> error + base" where
  "buffer_at buffer i =
     (if i < length buffer then Inr (buffer ! i) else Inl (OutOfBounds i (length buffer)))"

section \<open>Constants of class Comparator\<close>

definition NUM_CHROMOSOMES :: nat where
  "NUM_CHROMOSOMES = 23"

definition SEX_CHROMOSOME_IDX :: nat where
  "SEX_CHROMOSOME_IDX = 22"

definition X_CHROMOSOME_LEN :: nat where
  "X_CHROMOSOME_LEN = 156000000"

definition Y_CHROMOSOME_LEN :: nat where
  "Y_CHROMOSOME_LEN = 57000000"

definition TELOMERE_SEQ :: "base list" where
  "TELOMERE_SEQ = [T, T, A, G, G, G]"

text \<open>\<open>enum class SexChromosome\<close>; the sentinel \<open>MAX\<close> is written \<open>MAX_sex\<close> (the bare name is HOL syntax).\<close>

datatype SexChromosome = X | Y | MAX_sex

section \<open>getSex\<close>

definition helix_len :: "fake_stream \<Rightarrow> nat" where
  "helix_len helix = size_t (size_h helix * packed_size)"

definition getSex :: "fake_stream \<Rightarrow> SexChromosome" where
  "getSex helix =
     (if helix_len helix > (4 * X_CHROMOSOME_LEN) div 5 \<and>
         helix_len helix < (5 * X_CHROMOSOME_LEN) div 4
      then X
      else if helix_len helix > (4 * Y_CHROMOSOME_LEN) div 5 \<and>
              helix_len helix < (5 * Y_CHROMOSOME_LEN) div 4
      then Y
      else MAX_sex)"

section \<open>getDataRange\<close>

text \<open>
  The inner loop of the front search (lines 112--119): compare the first bases of the
  chunk, at most one period and at most the chunk, with the pattern rotated by \<open>t_idx\<close>.
\<close>

function front_match :: "base list \<Rightarrow> nat \<Rightarrow> nat \<Rightarrow> bool" where
  "front_match buffer t_idx b_idx =
     (if b_idx < length TELOMERE_SEQ \<and> b_idx < length buffer
      then (if buffer ! b_idx \<noteq> TELOMERE_SEQ ! ((t_idx + b_idx) mod length TELOMERE_SEQ)
            then False
            else front_match buffer t_idx (b_idx + 1))
      else True)"
  by pat_completeness auto
termination
  by (relation "measure (\<lambda>(buffer, t_idx, b_idx). length TELOMERE_SEQ - b_idx)") auto

text \<open>The outer loop of the front search (lines 108--127): the first rotation that matches.\<close>

function front_phase :: "base list \<Rightarrow> nat \<Rightarrow> nat option" where
  "front_phase buffer t_idx =
     (if t_idx < length TELOMERE_SEQ
      then (if front_match buffer t_idx 0 then Some t_idx
            else front_phase buffer (t_idx + 1))
      else None)"
  by pat_completeness auto
termination
  by (relation "measure (\<lambda>(buffer, t_idx). length TELOMERE_SEQ - t_idx)") auto

text \<open>
  The forward scan (lines 130--134). It returns the new \<open>data_start\<close> and the phase
  \<open>telomere_idx\<close> it stopped at, which the rest of the function goes on using.
\<close>

function scan_forward :: "base list \<Rightarrow> nat \<Rightarrow> nat \<Rightarrow> nat \<Rightarrow> error + nat \<times> nat" where
  "scan_forward buffer data_end data_start telomere_idx =
     (if data_start < data_end
      then (case buffer_at buffer data_start of
              Inl e \<Rightarrow> Inl e
            | Inr b \<Rightarrow>
                if b = TELOMERE_SEQ ! telomere_idx
                then scan_forward buffer data_end (data_start + 1)
                       ((telomere_idx + 1) mod length TELOMERE_SEQ)
                else Inr (data_start, telomere_idx))
      else Inr (data_start, telomere_idx))"
  by pat_completeness auto
termination
  by (relation "measure (\<lambda>(buffer, data_end, data_start, telomere_idx). data_end - data_start)")
    auto

text \<open>The inner loop of the back search (lines 146--153).\<close>

function back_match :: "base list \<Rightarrow> nat \<Rightarrow> nat \<Rightarrow> nat \<Rightarrow> error + bool" where
  "back_match buffer data_end t_idx b_idx =
     (if b_idx < length TELOMERE_SEQ
      then (case buffer_at buffer (data_end - 1 - b_idx) of
              Inl e \<Rightarrow> Inl e
            | Inr b \<Rightarrow>
                if b \<noteq> TELOMERE_SEQ !
                         ((length TELOMERE_SEQ + t_idx - b_idx) mod length TELOMERE_SEQ)
                then Inr False
                else back_match buffer data_end t_idx (b_idx + 1))
      else Inr True)"
  by pat_completeness auto
termination
  by (relation "measure (\<lambda>(buffer, data_end, t_idx, b_idx). length TELOMERE_SEQ - b_idx)") auto

text \<open>The outer loop of the back search (lines 143--161).\<close>

function back_phase :: "base list \<Rightarrow> nat \<Rightarrow> nat \<Rightarrow> error + nat option" where
  "back_phase buffer data_end t_idx =
     (if t_idx < length TELOMERE_SEQ
      then (case back_match buffer data_end t_idx 0 of
              Inl e \<Rightarrow> Inl e
            | Inr match \<Rightarrow>
                if match then Inr (Some t_idx)
                else back_phase buffer data_end (t_idx + 1))
      else Inr None)"
  by pat_completeness auto
termination
  by (relation "measure (\<lambda>(buffer, data_end, t_idx). length TELOMERE_SEQ - t_idx)") auto

text \<open>The backward scan (lines 164--168).\<close>

function scan_backward :: "base list \<Rightarrow> nat \<Rightarrow> nat \<Rightarrow> nat \<Rightarrow> error + nat" where
  "scan_backward buffer data_start data_end telomere_idx =
     (if data_end > data_start
      then (case buffer_at buffer (data_end - 1) of
              Inl e \<Rightarrow> Inl e
            | Inr b \<Rightarrow>
                if b = TELOMERE_SEQ ! telomere_idx
                then scan_backward buffer data_start (data_end - 1)
                       ((length TELOMERE_SEQ + telomere_idx - 1) mod length TELOMERE_SEQ)
                else Inr data_end)
      else Inr data_end)"
  by pat_completeness auto
termination
  by (relation "measure (\<lambda>(buffer, data_start, data_end, telomere_idx). data_end)") auto

text \<open>
  Step 1 and 2 of the source's own outline (lines 107--134): fix the phase from the
  first bases of the chunk, skip one period on a match, then scan forward. When no
  rotation matches, \<open>telomere_idx\<close> and \<open>data_start\<close> keep their initial value 0 and the
  scan runs all the same.
\<close>

definition trim_front :: "base list \<Rightarrow> nat \<Rightarrow> error + nat \<times> nat" where
  "trim_front buffer data_end =
     (let (telomere_idx, data_start) =
            (case front_phase buffer 0 of
               Some t_idx \<Rightarrow> (t_idx, length TELOMERE_SEQ)
             | None \<Rightarrow> (0, 0))
      in scan_forward buffer data_end data_start telomere_idx)"

text \<open>
  Step 3 (lines 142--168): the same from the end. When no rotation matches,
  \<open>telomere_idx\<close> is still the phase the forward scan stopped at.
\<close>

definition trim_back :: "base list \<Rightarrow> nat \<Rightarrow> nat \<Rightarrow> nat \<Rightarrow> error + nat" where
  "trim_back buffer data_start data_end telomere_idx =
     (case back_phase buffer data_end 0 of
        Inl e \<Rightarrow> Inl e
      | Inr found \<Rightarrow>
          let (telomere_idx, data_end) =
                (case found of
                   Some t_idx \<Rightarrow> (t_idx, data_end - length TELOMERE_SEQ)
                 | None \<Rightarrow> (telomere_idx, data_end))
          in scan_backward buffer data_start data_end telomere_idx)"

text \<open>
  The body of \<open>getDataRange\<close> after the single \<open>read()\<close> (lines 107--170), on the chunk
  \<open>buffer\<close> and the total length \<open>data_end\<close>.
\<close>

definition trim :: "base list \<Rightarrow> nat \<Rightarrow> error + nat \<times> nat" where
  "trim buffer data_end =
     (case trim_front buffer data_end of
        Inl e \<Rightarrow> Inl e
      | Inr (data_start, telomere_idx) \<Rightarrow>
          if data_end < size_t (data_start + length TELOMERE_SEQ)
          then Inr (data_start, data_end)
          else (case trim_back buffer data_start data_end telomere_idx of
                  Inl e \<Rightarrow> Inl e
                | Inr data_end \<Rightarrow> Inr (data_start, data_end)))"

text \<open>
  \<open>getDataRange\<close> (lines 78--171). The stream is passed by reference, so the stream as
  the call leaves it is returned beside the range.
\<close>

definition getDataRange :: "fake_stream \<Rightarrow> (error + nat \<times> nat) \<times> fake_stream" where
  "getDataRange helix =
     (let data_start = 0;
          data_end = size_t (size_h helix * packed_size)
      in if data_end < length TELOMERE_SEQ
         then (Inr (data_start, data_end), helix)
         else (let (buffer, helix') = read (seek 0 helix)
               in (trim buffer data_end, helix')))"

section \<open>compare\<close>

text \<open>
  What \<open>compare\<close> does to the two persons' streams is recorded as a trace: obtaining a
  chromosome's stream, classifying it with \<open>getSex\<close>, and handing it to \<open>getDataRange\<close>
  (the only place where a stream is sought and read).
\<close>

datatype sample = PersonA | PersonB

datatype event = Obtain sample nat | Classify sample nat | Trim sample nat

text \<open>
  The body of the loop over the chromosomes (lines 187--212), for one index: the fault
  it ends in, if any, and what it did to the streams. It never touches \<open>ret\<close>: after
  the two calls of \<open>getDataRange\<close> the source has only a comment.
\<close>

definition loop_body :: "person \<Rightarrow> person \<Rightarrow> nat \<Rightarrow> error option \<times> event list" where
  "loop_body a b idx =
     (let helix_a = chromosome a idx;
          helix_b = chromosome b idx;
          obtained = [Obtain PersonA idx, Obtain PersonB idx];
          classified = (if idx = SEX_CHROMOSOME_IDX
                        then [Classify PersonA idx, Classify PersonB idx] else [])
      in if idx = SEX_CHROMOSOME_IDX \<and>
            (getSex helix_a \<noteq> getSex helix_b \<or> getSex helix_a = MAX_sex)
         then (None, obtained @ classified)
         else (case fst (getDataRange helix_a) of
                 Inl e \<Rightarrow> (Some e, obtained @ classified @ [Trim PersonA idx])
               | Inr (a_start, a_end) \<Rightarrow>
                   (case fst (getDataRange helix_b) of
                      Inl e \<Rightarrow>
                        (Some e, obtained @ classified @ [Trim PersonA idx, Trim PersonB idx])
                    | Inr (b_start, b_end) \<Rightarrow>
                        (None, obtained @ classified @ [Trim PersonA idx, Trim PersonB idx]))))"

text \<open>The loop over the chromosomes (lines 185--213).\<close>

function compare_loop ::
  "person \<Rightarrow> person \<Rightarrow> nat \<Rightarrow> Difference list \<Rightarrow> event list
     \<Rightarrow> (error + Difference list) \<times> event list" where
  "compare_loop a b idx ret trace =
     (if idx < NUM_CHROMOSOMES
      then (case fst (loop_body a b idx) of
              Some e \<Rightarrow> (Inl e, trace @ snd (loop_body a b idx))
            | None \<Rightarrow> compare_loop a b (idx + 1) ret (trace @ snd (loop_body a b idx)))
      else (Inr ret, trace))"
  by pat_completeness auto
termination
  by (relation "measure (\<lambda>(a, b, idx, ret, trace). NUM_CHROMOSOMES - idx)") auto

text \<open>\<open>compare\<close> (lines 176--216).\<close>

definition compare :: "person \<Rightarrow> person \<Rightarrow> (error + Difference list) \<times> event list" where
  "compare a b =
     (if chromosomes a \<noteq> NUM_CHROMOSOMES \<or> chromosomes b \<noteq> NUM_CHROMOSOMES
      then (Inl InvalidInput, [])
      else compare_loop a b 0 [] [])"

section \<open>Concrete streams and persons, and the conditions the properties speak of\<close>

text \<open>The constructor \<open>fake_stream(data, chunk_size)\<close> of the test fixtures.\<close>

definition mk_fake_stream :: "packed list \<Rightarrow> nat \<Rightarrow> fake_stream" where
  "mk_fake_stream data chunk_size = \<lparr>m_data = data, m_chunk_size = chunk_size, m_offset = 0\<rparr>"

text \<open>A stream of \<open>sz\<close> storage units, delivered in one chunk (its content is all C).\<close>

definition sized_stream :: "nat \<Rightarrow> fake_stream" where
  "sized_stream sz = \<lparr>m_data = replicate sz (pack C C C C), m_chunk_size = sz, m_offset = 0\<rparr>"

text \<open>A person reporting \<open>n\<close> chromosomes: one stream at the sex index, another elsewhere.\<close>

definition sample_person :: "nat \<Rightarrow> fake_stream \<Rightarrow> fake_stream \<Rightarrow> person" where
  "sample_person n autosome sex_chromosome =
     \<lparr>chromosomes = n,
      chromosome = (\<lambda>idx. if idx = SEX_CHROMOSOME_IDX then sex_chromosome else autosome)\<rparr>"

definition autosome_fixture :: fake_stream where
  "autosome_fixture = mk_fake_stream [pack T T A G, pack G G C C] 128"

text \<open>The data of the test "small helix buffer chunk size" (test lines 198--209).\<close>

definition small_chunk_fixture :: "packed list" where
  "small_chunk_fixture =
     [pack G G T T, pack A G G G, pack T T A G, pack G G T T, pack A G G G, pack C C C C,
      pack C C C C, pack C C T T, pack A G G G, pack T T A G, pack G G T T]"

text \<open>The data of the test "Partial telomere at end" (test lines 139--143).\<close>

definition partial_end_fixture :: "packed list" where
  "partial_end_fixture = [pack C C C C, pack C C C C, pack T T A G, pack G G T T]"

text \<open>Two full periods, six bases of other data, one full period.\<close>

definition full_periods_fixture :: "packed list" where
  "full_periods_fixture =
     [pack T T A G, pack G G T T, pack A G G G, pack C A T G, pack A C T T, pack A G G G]"

text \<open>The first \<open>read()\<close> after \<open>seek(0)\<close> delivers the whole chromosome.\<close>

definition single_chunk :: "fake_stream \<Rightarrow> bool" where
  "single_chunk helix = (size_h helix \<le> m_chunk_size helix)"

text \<open>The length in bases, and one more period, fit \<open>size_t\<close>: no wrap-around occurs.\<close>

definition addressable :: "fake_stream \<Rightarrow> bool" where
  "addressable helix = (size_h helix * packed_size + length TELOMERE_SEQ < 2 ^ 64)"

text \<open>The six rotations of the pattern, and being one of them.\<close>

definition rotations :: "base list list" where
  "rotations = map (\<lambda>t_idx. rotate t_idx TELOMERE_SEQ) [0..<length TELOMERE_SEQ]"

definition is_rotation :: "base list \<Rightarrow> bool" where
  "is_rotation bases = (bases \<in> set rotations)"

declare front_match.simps [simp del]
declare front_phase.simps [simp del]
declare scan_forward.simps [simp del]
declare back_match.simps [simp del]
declare back_phase.simps [simp del]
declare scan_backward.simps [simp del]
declare compare_loop.simps [simp del]

section \<open>Properties\<close>

subsection \<open>Basic facts\<close>

lemma length_TELOMERE_SEQ: "length TELOMERE_SEQ = 6"
  by (simp add: TELOMERE_SEQ_def)

lemma length_unpack_all: "length (unpack_all us) = length us * packed_size"
  by (induction us) (auto simp: unpack_all_def packed_size_def)

lemma size_t_le: "size_t n \<le> n"
  by (simp add: size_t_def)

lemma size_t_id: "n < 2 ^ 64 \<Longrightarrow> size_t n = n"
  by (simp add: size_t_def)

subsection \<open>Failures are out-of-bounds reads only\<close>

lemma buffer_at_Inl: "buffer_at buffer i = Inl e \<Longrightarrow> e \<noteq> InvalidInput"
  by (auto simp: buffer_at_def split: if_splits)

lemma buffer_at_Inr: "i < length buffer \<Longrightarrow> buffer_at buffer i = Inr (buffer ! i)"
  by (simp add: buffer_at_def)

lemma scan_forward_Inl:
  "scan_forward buffer data_end data_start telomere_idx = Inl e \<Longrightarrow> e \<noteq> InvalidInput"
proof (induction buffer data_end data_start telomere_idx rule: scan_forward.induct)
  case (1 buffer data_end data_start telomere_idx)
  from "1.prems" "1.IH" show ?case
    by (auto simp: scan_forward.simps [of buffer data_end data_start telomere_idx]
        split: if_splits sum.splits dest: buffer_at_Inl)
qed

lemma back_match_Inl:
  "back_match buffer data_end t_idx b_idx = Inl e \<Longrightarrow> e \<noteq> InvalidInput"
proof (induction buffer data_end t_idx b_idx rule: back_match.induct)
  case (1 buffer data_end t_idx b_idx)
  from "1.prems" "1.IH" show ?case
    by (auto simp: back_match.simps [of buffer data_end t_idx b_idx]
        split: if_splits sum.splits dest: buffer_at_Inl)
qed

lemma back_phase_Inl:
  "back_phase buffer data_end t_idx = Inl e \<Longrightarrow> e \<noteq> InvalidInput"
proof (induction buffer data_end t_idx rule: back_phase.induct)
  case (1 buffer data_end t_idx)
  from "1.prems" "1.IH" show ?case
    by (auto simp: back_phase.simps [of buffer data_end t_idx]
        split: if_splits sum.splits dest: back_match_Inl)
qed

lemma scan_backward_Inl:
  "scan_backward buffer data_start data_end telomere_idx = Inl e \<Longrightarrow> e \<noteq> InvalidInput"
proof (induction buffer data_start data_end telomere_idx rule: scan_backward.induct)
  case (1 buffer data_start data_end telomere_idx)
  from "1.prems" "1.IH" show ?case
    by (auto simp: scan_backward.simps [of buffer data_start data_end telomere_idx]
        split: if_splits sum.splits dest: buffer_at_Inl)
qed

lemma trim_front_Inl: "trim_front buffer data_end = Inl e \<Longrightarrow> e \<noteq> InvalidInput"
  by (auto simp: trim_front_def split: option.splits dest: scan_forward_Inl)

lemma trim_back_Inl:
  "trim_back buffer data_start data_end telomere_idx = Inl e \<Longrightarrow> e \<noteq> InvalidInput"
  by (auto simp: trim_back_def split: option.splits sum.splits
      dest: back_phase_Inl scan_backward_Inl)

lemma trim_Inl: "trim buffer data_end = Inl e \<Longrightarrow> e \<noteq> InvalidInput"
  by (auto simp: trim_def split: sum.splits if_splits prod.splits
      dest: trim_front_Inl trim_back_Inl)

lemma getDataRange_Inl: "fst (getDataRange helix) = Inl e \<Longrightarrow> e \<noteq> InvalidInput"
  by (auto simp: getDataRange_def Let_def split: if_splits prod.splits dest: trim_Inl)

subsection \<open>Bounds of the scans\<close>

lemma scan_forward_bounds:
  "scan_forward buffer data_end data_start telomere_idx = Inr (s, t) \<Longrightarrow>
   data_start \<le> data_end \<Longrightarrow> data_start \<le> s \<and> s \<le> data_end"
proof (induction buffer data_end data_start telomere_idx rule: scan_forward.induct)
  case (1 buffer data_end data_start telomere_idx)
  from "1.prems" "1.IH" show ?case
    by (auto simp: scan_forward.simps [of buffer data_end data_start telomere_idx]
        split: if_splits sum.splits)
qed

lemma scan_backward_bounds:
  "scan_backward buffer data_start data_end telomere_idx = Inr e \<Longrightarrow>
   data_start \<le> data_end \<Longrightarrow> data_start \<le> e \<and> e \<le> data_end"
proof (induction buffer data_start data_end telomere_idx rule: scan_backward.induct)
  case (1 buffer data_start data_end telomere_idx)
  show ?case
  proof (cases "data_start < data_end")
    case True
    then have le: "data_start \<le> data_end - 1"
      by simp
    from "1.prems"(1) True "1.IH" [OF True _ _ _ le] show ?thesis
      by (fastforce simp: scan_backward.simps [of buffer data_start data_end telomere_idx]
          split: sum.splits if_splits)
  next
    case False
    with "1.prems" show ?thesis
      by (simp add: scan_backward.simps [of buffer data_start data_end telomere_idx])
  qed
qed

lemma trim_front_bounds:
  assumes "trim_front buffer data_end = Inr (s, t)" and "length TELOMERE_SEQ \<le> data_end"
  shows "s \<le> data_end"
proof (cases "front_phase buffer 0")
  case None
  with assms(1) have "scan_forward buffer data_end 0 0 = Inr (s, t)"
    by (simp add: trim_front_def)
  from scan_forward_bounds [OF this] show ?thesis
    by simp
next
  case (Some t_idx)
  with assms(1) have "scan_forward buffer data_end (length TELOMERE_SEQ) t_idx = Inr (s, t)"
    by (simp add: trim_front_def)
  from scan_forward_bounds [OF this assms(2)] show ?thesis
    by simp
qed

lemma trim_back_bounds:
  assumes "trim_back buffer data_start data_end telomere_idx = Inr e"
    and "data_start + length TELOMERE_SEQ \<le> data_end"
  shows "data_start \<le> e \<and> e \<le> data_end"
proof -
  from assms(1) obtain found where bk: "back_phase buffer data_end 0 = Inr found"
    by (auto simp: trim_back_def split: sum.splits)
  show ?thesis
  proof (cases found)
    case None
    with assms(1) bk have "scan_backward buffer data_start data_end telomere_idx = Inr e"
      by (simp add: trim_back_def)
    from scan_backward_bounds [OF this] assms(2) show ?thesis
      by simp
  next
    case (Some t_idx)
    with assms(1) bk
    have bwd: "scan_backward buffer data_start (data_end - length TELOMERE_SEQ) t_idx = Inr e"
      by (simp add: trim_back_def)
    from assms(2) have "data_start \<le> data_end - length TELOMERE_SEQ"
      by simp
    from scan_backward_bounds [OF bwd this] show ?thesis
      by arith
  qed
qed

lemma trim_bounds:
  assumes "trim buffer data_end = Inr (s, e)"
    and "length TELOMERE_SEQ \<le> data_end"
    and "data_end + length TELOMERE_SEQ < 2 ^ 64"
  shows "s \<le> e \<and> e \<le> data_end"
proof -
  from assms(1) obtain t where front: "trim_front buffer data_end = Inr (s, t)"
    by (auto simp: trim_def split: sum.splits if_splits)
  from trim_front_bounds [OF front assms(2)] have s: "s \<le> data_end" .
  have nowrap: "size_t (s + length TELOMERE_SEQ) = s + length TELOMERE_SEQ"
    using s assms(3) by (intro size_t_id) simp
  show ?thesis
  proof (cases "data_end < s + length TELOMERE_SEQ")
    case True
    with assms(1) front nowrap have "e = data_end"
      by (simp add: trim_def)
    with s show ?thesis by simp
  next
    case False
    with assms(1) front nowrap have "trim_back buffer s data_end t = Inr e"
      by (simp add: trim_def split: sum.splits)
    from trim_back_bounds [OF this] False show ?thesis
      by simp
  qed
qed

subsection \<open>No failure when the chunk holds the whole chromosome\<close>

lemma scan_forward_total:
  "data_end \<le> length buffer \<Longrightarrow>
   \<exists>r. scan_forward buffer data_end data_start telomere_idx = Inr r"
proof (induction buffer data_end data_start telomere_idx rule: scan_forward.induct)
  case (1 buffer data_end data_start telomere_idx)
  from "1.prems" "1.IH" show ?case
    by (auto simp: scan_forward.simps [of buffer data_end data_start telomere_idx] buffer_at_def)
qed

lemma back_match_total:
  "0 < data_end \<Longrightarrow> data_end \<le> length buffer \<Longrightarrow>
   \<exists>r. back_match buffer data_end t_idx b_idx = Inr r"
proof (induction buffer data_end t_idx b_idx rule: back_match.induct)
  case (1 buffer data_end t_idx b_idx)
  from "1.prems" have "data_end - 1 - b_idx < length buffer"
    by arith
  with "1.prems" "1.IH" show ?case
    by (auto simp: back_match.simps [of buffer data_end t_idx b_idx] buffer_at_def)
qed

lemma back_phase_total:
  "0 < data_end \<Longrightarrow> data_end \<le> length buffer \<Longrightarrow>
   \<exists>r. back_phase buffer data_end t_idx = Inr r"
proof (induction buffer data_end t_idx rule: back_phase.induct)
  case (1 buffer data_end t_idx)
  from back_match_total [OF "1.prems", of t_idx 0]
  obtain m where "back_match buffer data_end t_idx 0 = Inr m"
    by blast
  with "1.prems" "1.IH" show ?case
    by (auto simp: back_phase.simps [of buffer data_end t_idx])
qed

lemma scan_backward_total:
  "data_end \<le> length buffer \<Longrightarrow>
   \<exists>r. scan_backward buffer data_start data_end telomere_idx = Inr r"
proof (induction buffer data_start data_end telomere_idx rule: scan_backward.induct)
  case (1 buffer data_start data_end telomere_idx)
  show ?case
  proof (cases "data_start < data_end")
    case True
    with "1.prems" have rd: "buffer_at buffer (data_end - 1) = Inr (buffer ! (data_end - 1))"
      by (simp add: buffer_at_def)
    from "1.prems" have "data_end - 1 \<le> length buffer"
      by simp
    from "1.IH" [OF True rd _ this] True rd show ?thesis
      by (auto simp: scan_backward.simps [of buffer data_start data_end telomere_idx])
  next
    case False
    then show ?thesis
      by (simp add: scan_backward.simps [of buffer data_start data_end telomere_idx])
  qed
qed

lemma trim_front_total:
  "data_end \<le> length buffer \<Longrightarrow> \<exists>s t. trim_front buffer data_end = Inr (s, t)"
  using scan_forward_total [of data_end buffer]
  by (cases "front_phase buffer 0") (auto simp: trim_front_def)

lemma trim_back_total:
  assumes "0 < data_end" and "data_end \<le> length buffer"
  shows "\<exists>e. trim_back buffer data_start data_end telomere_idx = Inr e"
proof -
  from back_phase_total [OF assms, of 0]
  obtain found where bk: "back_phase buffer data_end 0 = Inr found"
    by blast
  from assms(2) have "data_end - length TELOMERE_SEQ \<le> length buffer"
    by simp
  with bk assms(2) show ?thesis
    using scan_backward_total [of data_end buffer data_start telomere_idx]
      scan_backward_total [of "data_end - length TELOMERE_SEQ" buffer data_start]
    by (cases found) (auto simp: trim_back_def)
qed

lemma trim_total:
  assumes "0 < data_end" and "data_end \<le> length buffer"
  shows "\<exists>s e. trim buffer data_end = Inr (s, e)"
proof -
  from trim_front_total [OF assms(2)]
  obtain s t where front: "trim_front buffer data_end = Inr (s, t)"
    by blast
  from trim_back_total [OF assms, of s t]
  obtain e where "trim_back buffer s data_end t = Inr e"
    by blast
  with front show ?thesis
    by (simp add: trim_def)
qed

lemma read_seek_single_chunk:
  "single_chunk helix \<Longrightarrow> fst (read (seek 0 helix)) = unpack_all (m_data helix)"
  by (simp add: single_chunk_def size_h_def read_def seek_def Let_def)

lemma getDataRange_short:
  "size_h helix * packed_size < length TELOMERE_SEQ \<Longrightarrow>
   fst (getDataRange helix) = Inr (0, size_h helix * packed_size)"
  by (simp add: getDataRange_def size_t_def length_TELOMERE_SEQ)

lemma getDataRange_long:
  "length TELOMERE_SEQ \<le> size_t (size_h helix * packed_size) \<Longrightarrow>
   fst (getDataRange helix) =
     trim (fst (read (seek 0 helix))) (size_t (size_h helix * packed_size))"
  by (simp add: getDataRange_def split: prod.splits)

lemma getDataRange_total:
  assumes "single_chunk helix"
  shows "\<exists>s e. fst (getDataRange helix) = Inr (s, e)"
proof (cases "size_t (size_h helix * packed_size) < length TELOMERE_SEQ")
  case True
  then show ?thesis
    by (simp add: getDataRange_def)
next
  case False
  have "size_t (size_h helix * packed_size) \<le> length (unpack_all (m_data helix))"
    by (simp add: length_unpack_all size_t_le size_h_def)
  with False show ?thesis
    using trim_total [of "size_t (size_h helix * packed_size)" "unpack_all (m_data helix)"]
    by (simp add: getDataRange_long read_seek_single_chunk [OF assms] length_TELOMERE_SEQ)
qed

text \<open>
  Among streams that deliver everything in one chunk, the range depends on the data only,
  not on the chunk size.
\<close>

lemma getDataRange_single_chunk_data:
  assumes "single_chunk helix" and "single_chunk helix'" and "m_data helix = m_data helix'"
  shows "fst (getDataRange helix) = fst (getDataRange helix')"
proof -
  have rd: "fst (read (seek 0 helix)) = fst (read (seek 0 helix'))"
    using assms by (simp add: read_seek_single_chunk)
  have sz: "size_h helix = size_h helix'"
    using assms(3) by (simp add: size_h_def)
  show ?thesis
  proof (cases "size_t (size_h helix * packed_size) < length TELOMERE_SEQ")
    case True
    then show ?thesis
      by (simp add: getDataRange_def sz)
  next
    case False
    then show ?thesis
      using getDataRange_long [of helix] getDataRange_long [of helix'] rd
      by (simp add: sz)
  qed
qed

subsection \<open>Facts about the loop of compare\<close>

lemma loop_body_fault: "fst (loop_body pa pb idx) = Some e \<Longrightarrow> e \<noteq> InvalidInput"
  by (auto simp: loop_body_def Let_def split: if_splits sum.splits prod.splits
      dest: getDataRange_Inl)

lemma loop_body_skip:
  assumes "getSex (chromosome pa SEX_CHROMOSOME_IDX) \<noteq> getSex (chromosome pb SEX_CHROMOSOME_IDX) \<or>
           getSex (chromosome pa SEX_CHROMOSOME_IDX) = MAX_sex"
  shows "Trim s SEX_CHROMOSOME_IDX \<notin> set (snd (loop_body pa pb idx))"
  using assms
  by (auto simp: loop_body_def Let_def split: if_splits sum.splits prod.splits)

lemma loop_body_total:
  assumes "single_chunk (chromosome pa idx)" and "single_chunk (chromosome pb idx)"
  shows "fst (loop_body pa pb idx) = None"
proof -
  from assms obtain sa ea sb eb where
    "fst (getDataRange (chromosome pa idx)) = Inr (sa, ea)"
    "fst (getDataRange (chromosome pb idx)) = Inr (sb, eb)"
    using getDataRange_total by blast
  then show ?thesis
    by (simp add: loop_body_def Let_def)
qed

lemma compare_loop_Inr:
  "fst (compare_loop pa pb idx ret trace) = Inr ds \<Longrightarrow> ds = ret"
proof (induction pa pb idx ret trace rule: compare_loop.induct)
  case (1 pa pb idx ret trace)
  from "1.prems" "1.IH" show ?case
    by (auto simp: compare_loop.simps [of pa pb idx ret trace]
        split: if_splits option.splits)
qed

lemma compare_loop_Inl:
  "fst (compare_loop pa pb idx ret trace) = Inl e \<Longrightarrow> e \<noteq> InvalidInput"
proof (induction pa pb idx ret trace rule: compare_loop.induct)
  case (1 pa pb idx ret trace)
  from "1.prems" "1.IH" show ?case
    by (auto simp: compare_loop.simps [of pa pb idx ret trace]
        split: if_splits option.splits dest: loop_body_fault)
qed

lemma compare_loop_skip:
  "getSex (chromosome pa SEX_CHROMOSOME_IDX) \<noteq> getSex (chromosome pb SEX_CHROMOSOME_IDX) \<or>
   getSex (chromosome pa SEX_CHROMOSOME_IDX) = MAX_sex \<Longrightarrow>
   Trim s SEX_CHROMOSOME_IDX \<notin> set trace \<Longrightarrow>
   Trim s SEX_CHROMOSOME_IDX \<notin> set (snd (compare_loop pa pb idx ret trace))"
proof (induction pa pb idx ret trace rule: compare_loop.induct)
  case (1 pa pb idx ret trace)
  note body = loop_body_skip [OF "1.prems"(1), of s idx]
  show ?case
  proof (cases "idx < NUM_CHROMOSOMES")
    case True
    show ?thesis
    proof (cases "fst (loop_body pa pb idx)")
      case None
      from "1.prems"(2) body
      have "Trim s SEX_CHROMOSOME_IDX \<notin> set (trace @ snd (loop_body pa pb idx))"
        by simp
      from "1.IH" [OF True None "1.prems"(1) this] True None show ?thesis
        by (simp add: compare_loop.simps [of pa pb idx ret trace])
    next
      case (Some e)
      with True "1.prems"(2) body show ?thesis
        by (simp add: compare_loop.simps [of pa pb idx ret trace])
    qed
  next
    case False
    with "1.prems"(2) show ?thesis
      by (simp add: compare_loop.simps [of pa pb idx ret trace])
  qed
qed

lemma compare_loop_total:
  "\<forall>i<NUM_CHROMOSOMES. single_chunk (chromosome pa i) \<and> single_chunk (chromosome pb i) \<Longrightarrow>
   fst (compare_loop pa pb idx ret trace) = Inr ret"
proof (induction pa pb idx ret trace rule: compare_loop.induct)
  case (1 pa pb idx ret trace)
  show ?case
  proof (cases "idx < NUM_CHROMOSOMES")
    case True
    with "1.prems" have none: "fst (loop_body pa pb idx) = None"
      by (simp add: loop_body_total)
    from "1.IH" [OF True none "1.prems"] True none show ?thesis
      by (simp add: compare_loop.simps [of pa pb idx ret trace])
  next
    case False
    then show ?thesis
      by (simp add: compare_loop.simps [of pa pb idx ret trace])
  qed
qed

subsection \<open>Facts about the concrete inputs\<close>

lemma single_chunk_sized_stream: "single_chunk (sized_stream sz)"
  by (simp add: single_chunk_def sized_stream_def size_h_def)

lemma single_chunk_mk_fake_stream:
  "single_chunk (mk_fake_stream data chunk_size) \<longleftrightarrow> length data \<le> chunk_size"
  by (simp add: single_chunk_def mk_fake_stream_def size_h_def)

lemma helix_len_sized_stream: "helix_len (sized_stream sz) = (sz * 4) mod 2 ^ 64"
  by (simp add: helix_len_def sized_stream_def size_h_def size_t_def packed_size_def)

lemmas run_simps = getDataRange_def trim_def trim_front_def trim_back_def read_def seek_def
  size_h_def size_t_def packed_size_def unpack_all_def pack_def TELOMERE_SEQ_def buffer_at_def
  mk_fake_stream_def front_match.simps front_phase.simps scan_forward.simps back_match.simps
  back_phase.simps scan_backward.simps

lemma rotations_eq:
  "rotations = [[T, T, A, G, G, G], [T, A, G, G, G, T], [A, G, G, G, T, T],
                [G, G, G, T, T, A], [G, G, T, T, A, G], [G, T, T, A, G, G]]"
  by (simp add: rotations_def TELOMERE_SEQ_def upt_conv_Cons)

lemma is_rotation_iff:
  "is_rotation bases \<longleftrightarrow> bases = [T, T, A, G, G, G] \<or> bases = [T, A, G, G, G, T] \<or>
     bases = [A, G, G, G, T, T] \<or> bases = [G, G, G, T, T, A] \<or>
     bases = [G, G, T, T, A, G] \<or> bases = [G, T, T, A, G, G]"
  by (simp add: is_rotation_def rotations_eq)

subsection \<open>The rotation search on six bases\<close>

lemma six_or_more:
  assumes "6 \<le> length xs"
  obtains a b c d e f rest where "xs = a # b # c # d # e # f # rest"
proof -
  from assms obtain a r1 where "xs = a # r1" "5 \<le> length r1" by (cases xs) auto
  moreover then obtain b r2 where "r1 = b # r2" "4 \<le> length r2" by (cases r1) auto
  moreover then obtain c r3 where "r2 = c # r3" "3 \<le> length r3" by (cases r2) auto
  moreover then obtain d r4 where "r3 = d # r4" "2 \<le> length r4" by (cases r3) auto
  moreover then obtain e r5 where "r4 = e # r5" "1 \<le> length r5" by (cases r4) auto
  moreover then obtain f r6 where "r5 = f # r6" by (cases r5) auto
  ultimately show ?thesis using that by blast
qed


lemma front_match_six:
  "front_match (a # b # c # d # e # f # rest) 0 0 = ([a, b, c, d, e, f] = [T, T, A, G, G, G])"
  "front_match (a # b # c # d # e # f # rest) (Suc 0) 0 = ([a, b, c, d, e, f] = [T, A, G, G, G, T])"
  "front_match (a # b # c # d # e # f # rest) 2 0 = ([a, b, c, d, e, f] = [A, G, G, G, T, T])"
  "front_match (a # b # c # d # e # f # rest) 3 0 = ([a, b, c, d, e, f] = [G, G, G, T, T, A])"
  "front_match (a # b # c # d # e # f # rest) 4 0 = ([a, b, c, d, e, f] = [G, G, T, T, A, G])"
  "front_match (a # b # c # d # e # f # rest) 5 0 = ([a, b, c, d, e, f] = [G, T, T, A, G, G])"
  by (simp_all add: front_match.simps TELOMERE_SEQ_def)

lemma front_phase_unfold:
  "front_phase buffer 0 =
     (if front_match buffer 0 0 then Some 0
      else if front_match buffer 1 0 then Some 1
      else if front_match buffer 2 0 then Some 2
      else if front_match buffer 3 0 then Some 3
      else if front_match buffer 4 0 then Some 4
      else if front_match buffer 5 0 then Some 5
      else None)"
  by (simp add: front_phase.simps length_TELOMERE_SEQ eval_nat_numeral)

lemma front_phase_six:
  "front_phase (a # b # c # d # e # f # rest) 0 = None \<longleftrightarrow>
     \<not> is_rotation [a, b, c, d, e, f]"
  by (simp add: front_phase_unfold front_match_six is_rotation_iff)

lemma front_phase_period: "front_phase (TELOMERE_SEQ @ rest) 0 = Some 0"
  by (simp add: front_phase_unfold front_match.simps TELOMERE_SEQ_def)

lemma below_six:
  assumes "t < (6::nat)"
  obtains "t = 0" | "t = 1" | "t = 2" | "t = 3" | "t = 4" | "t = 5"
  using assms by arith

lemma back_match_six:
  assumes "t_idx < 6"
  shows "back_match (pre @ [a, b, c, d, e, f]) (length pre + 6) t_idx 0 =
         Inr ([a, b, c, d, e, f] = rotations ! ((t_idx + 1) mod 6))"
  using assms
proof (cases t_idx rule: below_six)
  case 1
  then show ?thesis
    by (auto simp: back_match.simps buffer_at_def TELOMERE_SEQ_def nth_append rotations_eq)
next
  case 2
  then show ?thesis
    by (auto simp: back_match.simps buffer_at_def TELOMERE_SEQ_def nth_append rotations_eq)
next
  case 3
  then show ?thesis
    by (auto simp: back_match.simps buffer_at_def TELOMERE_SEQ_def nth_append rotations_eq)
next
  case 4
  then show ?thesis
    by (auto simp: back_match.simps buffer_at_def TELOMERE_SEQ_def nth_append rotations_eq)
next
  case 5
  then show ?thesis
    by (auto simp: back_match.simps buffer_at_def TELOMERE_SEQ_def nth_append rotations_eq)
next
  case 6
  then show ?thesis
    by (auto simp: back_match.simps buffer_at_def TELOMERE_SEQ_def nth_append rotations_eq)
qed

lemma back_phase_unfold:
  assumes "\<And>t_idx. t_idx < 6 \<Longrightarrow> back_match buffer data_end t_idx 0 = Inr (m t_idx)"
  shows "back_phase buffer data_end 0 =
     Inr (if m 0 then Some 0 else if m 1 then Some 1 else if m 2 then Some 2
          else if m 3 then Some 3 else if m 4 then Some 4 else if m 5 then Some 5 else None)"
  by (simp add: back_phase.simps length_TELOMERE_SEQ assms eval_nat_numeral)

lemma back_phase_six:
  "back_phase (pre @ [a, b, c, d, e, f]) (length pre + 6) 0 = Inr None \<longleftrightarrow>
     \<not> is_rotation [a, b, c, d, e, f]"
  by (simp add: back_phase_unfold [OF back_match_six] is_rotation_iff rotations_eq)

lemma back_phase_period:
  "back_phase (pre @ TELOMERE_SEQ) (length pre + 6) 0 = Inr (Some 5)"
  unfolding TELOMERE_SEQ_def
  by (simp add: back_phase_unfold [OF back_match_six] rotations_eq)

subsection \<open>The scans over full periods\<close>

lemma scan_forward_step:
  assumes "data_start < data_end" and "data_start < length buffer"
    and "buffer ! data_start = TELOMERE_SEQ ! telomere_idx"
  shows "scan_forward buffer data_end data_start telomere_idx =
         scan_forward buffer data_end (data_start + 1) ((telomere_idx + 1) mod 6)"
  using assms
  by (subst scan_forward.simps) (simp add: buffer_at_def length_TELOMERE_SEQ)

lemma scan_forward_stop:
  assumes "data_start < data_end" and "data_start < length buffer"
    and "buffer ! data_start \<noteq> TELOMERE_SEQ ! telomere_idx"
  shows "scan_forward buffer data_end data_start telomere_idx = Inr (data_start, telomere_idx)"
  using assms
  by (subst scan_forward.simps) (simp add: buffer_at_def)

lemma nth_period:
  assumes "k < 6"
  shows "(pre @ TELOMERE_SEQ @ rest) ! (length pre + k) = TELOMERE_SEQ ! k"
proof -
  have "(pre @ TELOMERE_SEQ @ rest) ! (length pre + k) = (TELOMERE_SEQ @ rest) ! k"
    by (rule nth_append_length_plus)
  also have "\<dots> = TELOMERE_SEQ ! k"
    using assms by (simp add: nth_append length_TELOMERE_SEQ)
  finally show ?thesis .
qed

lemma scan_forward_period_step:
  assumes "p = length pre + k" and "k < 6" and "p < data_end"
    and "k' = (k + 1) mod 6" and "p' = p + 1"
  shows "scan_forward (pre @ TELOMERE_SEQ @ rest) data_end p k =
         scan_forward (pre @ TELOMERE_SEQ @ rest) data_end p' k'"
  unfolding assms(4,5)
proof (rule scan_forward_step)
  show "p < data_end"
    by (rule assms(3))
  show "p < length (pre @ TELOMERE_SEQ @ rest)"
    using assms(1,2) by (simp add: length_TELOMERE_SEQ)
  show "(pre @ TELOMERE_SEQ @ rest) ! p = TELOMERE_SEQ ! k"
    unfolding assms(1) using assms(2) by (rule nth_period)
qed

lemma scan_forward_one_period:
  assumes "length pre = s" and "s + 6 \<le> data_end"
  shows "scan_forward (pre @ TELOMERE_SEQ @ rest) data_end s 0 =
         scan_forward (pre @ TELOMERE_SEQ @ rest) data_end (s + 6) 0"
proof -
  let ?b = "pre @ TELOMERE_SEQ @ rest"
  have "scan_forward ?b data_end s 0 = scan_forward ?b data_end (s + 1) 1"
    by (rule scan_forward_period_step) (use assms in simp_all)
  also have "\<dots> = scan_forward ?b data_end (s + 2) 2"
    by (rule scan_forward_period_step) (use assms in simp_all)
  also have "\<dots> = scan_forward ?b data_end (s + 3) 3"
    by (rule scan_forward_period_step) (use assms in simp_all)
  also have "\<dots> = scan_forward ?b data_end (s + 4) 4"
    by (rule scan_forward_period_step) (use assms in simp_all)
  also have "\<dots> = scan_forward ?b data_end (s + 5) 5"
    by (rule scan_forward_period_step) (use assms in simp_all)
  also have "\<dots> = scan_forward ?b data_end (s + 6) 0"
    by (rule scan_forward_period_step) (use assms in simp_all)
  finally show ?thesis .
qed

lemma scan_forward_periods:
  "length pre = s \<Longrightarrow> x \<noteq> T \<Longrightarrow> s + 6 * j < data_end \<Longrightarrow>
   scan_forward (pre @ concat (replicate j TELOMERE_SEQ) @ x # rest) data_end s 0 =
     Inr (s + 6 * j, 0)"
proof (induction j arbitrary: pre s)
  case 0
  have "scan_forward (pre @ x # rest) data_end s 0 = Inr (s, 0)"
  proof (rule scan_forward_stop)
    show "s < data_end"
      using "0.prems"(3) by simp
    show "s < length (pre @ x # rest)"
      using "0.prems"(1) by simp
    show "(pre @ x # rest) ! s \<noteq> TELOMERE_SEQ ! 0"
      using "0.prems"(1,2) by (simp add: TELOMERE_SEQ_def nth_append)
  qed
  then show ?case
    by simp
next
  case (Suc j)
  let ?rest = "concat (replicate j TELOMERE_SEQ) @ x # rest"
  have "scan_forward (pre @ TELOMERE_SEQ @ ?rest) data_end s 0 =
        scan_forward (pre @ TELOMERE_SEQ @ ?rest) data_end (s + 6) 0"
    using Suc.prems by (intro scan_forward_one_period) simp_all
  also have "\<dots> = scan_forward ((pre @ TELOMERE_SEQ) @ ?rest) data_end (s + 6) 0"
    by simp
  also have "\<dots> = Inr (s + 6 + 6 * j, 0)"
    using Suc.prems by (intro Suc.IH) (simp_all add: length_TELOMERE_SEQ)
  finally show ?case
    by simp
qed

lemma scan_backward_step:
  assumes "data_start < data_end" and "data_end \<le> length buffer"
    and "buffer ! (data_end - 1) = TELOMERE_SEQ ! telomere_idx"
  shows "scan_backward buffer data_start data_end telomere_idx =
         scan_backward buffer data_start (data_end - 1) ((6 + telomere_idx - 1) mod 6)"
proof -
  from assms(1,2) have "data_end - 1 < length buffer"
    by arith
  then have "buffer_at buffer (data_end - 1) = Inr (TELOMERE_SEQ ! telomere_idx)"
    using assms(3) by (simp add: buffer_at_def)
  with assms(1) show ?thesis
    by (subst scan_backward.simps) (simp add: length_TELOMERE_SEQ)
qed

lemma scan_backward_stop:
  assumes "data_start < data_end" and "data_end \<le> length buffer"
    and "buffer ! (data_end - 1) \<noteq> TELOMERE_SEQ ! telomere_idx"
  shows "scan_backward buffer data_start data_end telomere_idx = Inr data_end"
proof -
  from assms(1,2) have "data_end - 1 < length buffer"
    by arith
  then have "buffer_at buffer (data_end - 1) = Inr (buffer ! (data_end - 1))"
    by (simp add: buffer_at_def)
  with assms(1,3) show ?thesis
    by (subst scan_backward.simps) simp
qed

lemma scan_backward_period_step:
  assumes "p = length pre + k + 1" and "k < 6" and "data_start \<le> length pre"
    and "k' = (6 + k - 1) mod 6" and "p' = length pre + k"
  shows "scan_backward (pre @ TELOMERE_SEQ @ rest) data_start p k =
         scan_backward (pre @ TELOMERE_SEQ @ rest) data_start p' k'"
proof -
  have "scan_backward (pre @ TELOMERE_SEQ @ rest) data_start p k =
        scan_backward (pre @ TELOMERE_SEQ @ rest) data_start (p - 1) ((6 + k - 1) mod 6)"
  proof (rule scan_backward_step)
    show "data_start < p"
      using assms(1,3) by simp
    show "p \<le> length (pre @ TELOMERE_SEQ @ rest)"
      using assms(1,2) by (simp add: length_TELOMERE_SEQ)
    have "(pre @ TELOMERE_SEQ @ rest) ! (length pre + k) = TELOMERE_SEQ ! k"
      using assms(2) by (rule nth_period)
    then show "(pre @ TELOMERE_SEQ @ rest) ! (p - 1) = TELOMERE_SEQ ! k"
      using assms(1) by simp
  qed
  then show ?thesis
    using assms(1,4,5) by simp
qed

lemma scan_backward_one_period:
  assumes "length pre = n" and "data_start \<le> n"
  shows "scan_backward (pre @ TELOMERE_SEQ @ rest) data_start (n + 6) 5 =
         scan_backward (pre @ TELOMERE_SEQ @ rest) data_start n 5"
proof -
  let ?b = "pre @ TELOMERE_SEQ @ rest"
  have "scan_backward ?b data_start (n + 6) 5 = scan_backward ?b data_start (n + 5) 4"
    by (rule scan_backward_period_step) (use assms in simp_all)
  also have "\<dots> = scan_backward ?b data_start (n + 4) 3"
    by (rule scan_backward_period_step) (use assms in simp_all)
  also have "\<dots> = scan_backward ?b data_start (n + 3) 2"
    by (rule scan_backward_period_step) (use assms in simp_all)
  also have "\<dots> = scan_backward ?b data_start (n + 2) 1"
    by (rule scan_backward_period_step) (use assms in simp_all)
  also have "\<dots> = scan_backward ?b data_start (n + 1) 0"
    by (rule scan_backward_period_step) (use assms in simp_all)
  also have "\<dots> = scan_backward ?b data_start n 5"
    by (rule scan_backward_period_step [where k = 0]) (use assms in simp_all)
  finally show ?thesis .
qed

lemma length_concat_periods: "length (concat (replicate j TELOMERE_SEQ)) = 6 * j"
  by (induction j) (simp_all add: length_TELOMERE_SEQ)

lemma concat_periods_Suc:
  "concat (replicate (Suc j) TELOMERE_SEQ) = concat (replicate j TELOMERE_SEQ) @ TELOMERE_SEQ"
  by (induction j) simp_all

lemma scan_backward_periods:
  "x \<noteq> G \<Longrightarrow> data_start \<le> length pre \<Longrightarrow>
   scan_backward (pre @ x # concat (replicate j TELOMERE_SEQ) @ rest) data_start
     (length pre + 1 + 6 * j) 5 = Inr (length pre + 1)"
proof (induction j arbitrary: rest)
  case 0
  have "scan_backward (pre @ x # rest) data_start (length pre + 1) 5 = Inr (length pre + 1)"
  proof (rule scan_backward_stop)
    show "data_start < length pre + 1"
      using "0.prems"(2) by simp
    show "length pre + 1 \<le> length (pre @ x # rest)"
      by simp
    show "(pre @ x # rest) ! (length pre + 1 - 1) \<noteq> TELOMERE_SEQ ! 5"
      using "0.prems"(1) by (simp add: TELOMERE_SEQ_def)
  qed
  then show ?case
    by simp
next
  case (Suc j)
  let ?pre = "pre @ x # concat (replicate j TELOMERE_SEQ)"
  have len: "length ?pre = length pre + 1 + 6 * j"
    by (simp add: length_concat_periods)
  have buf: "pre @ x # concat (replicate (Suc j) TELOMERE_SEQ) @ rest =
             ?pre @ TELOMERE_SEQ @ rest"
    unfolding concat_periods_Suc by simp
  have "scan_backward (?pre @ TELOMERE_SEQ @ rest) data_start (length pre + 1 + 6 * j + 6) 5 =
        scan_backward (?pre @ TELOMERE_SEQ @ rest) data_start (length pre + 1 + 6 * j) 5"
    using len Suc.prems(2) by (intro scan_backward_one_period) simp_all
  also have "\<dots> =
      scan_backward (pre @ x # concat (replicate j TELOMERE_SEQ) @ TELOMERE_SEQ @ rest)
        data_start (length pre + 1 + 6 * j) 5"
    by simp
  also have "\<dots> = Inr (length pre + 1)"
    using Suc.prems by (intro Suc.IH)
  finally show ?case
    unfolding buf by (simp add: add.assoc)
qed

subsection \<open>Both ends of a sequence of full periods around other data\<close>

lemma scan_forward_periods_end:
  "length pre = s \<Longrightarrow> data_end = s + 6 * j \<Longrightarrow>
   scan_forward (pre @ concat (replicate j TELOMERE_SEQ)) data_end s 0 = Inr (s + 6 * j, 0)"
proof (induction j arbitrary: pre s)
  case 0
  then show ?case
    by (subst scan_forward.simps) simp
next
  case (Suc j)
  let ?rest = "concat (replicate j TELOMERE_SEQ)"
  have "scan_forward (pre @ TELOMERE_SEQ @ ?rest) data_end s 0 =
        scan_forward (pre @ TELOMERE_SEQ @ ?rest) data_end (s + 6) 0"
    using Suc.prems by (intro scan_forward_one_period) simp_all
  also have "\<dots> = scan_forward ((pre @ TELOMERE_SEQ) @ ?rest) data_end (s + 6) 0"
    by simp
  also have "\<dots> = Inr (s + 6 + 6 * j, 0)"
    using Suc.prems by (intro Suc.IH) (simp_all add: length_TELOMERE_SEQ)
  finally show ?case
    by simp
qed

lemma trim_front_periods:
  assumes buf: "buffer = concat (replicate K TELOMERE_SEQ) @ rest"
    and rest: "rest \<noteq> [] \<Longrightarrow> hd rest \<noteq> T"
    and long: "6 \<le> length buffer" and data_end: "data_end = length buffer"
    and head: "K = 0 \<Longrightarrow> \<not> is_rotation (take 6 buffer)"
  shows "trim_front buffer data_end = Inr (6 * K, 0)"
proof (cases K)
  case 0
  from long obtain a b c d e f r where six: "buffer = a # b # c # d # e # f # r"
    by (rule six_or_more)
  with head [OF 0] have none: "front_phase buffer 0 = None"
    by (simp add: front_phase_six)
  from 0 six buf have "rest \<noteq> []"
    by auto
  with rest obtain x xs where xs: "rest = x # xs" and x: "x \<noteq> T"
    by (cases rest) auto
  have "scan_forward ([] @ concat (replicate 0 TELOMERE_SEQ) @ x # xs) data_end 0 0 =
        Inr (0 + 6 * 0, 0)"
    using x long data_end by (intro scan_forward_periods) auto
  with none 0 show ?thesis
    by (simp add: trim_front_def buf xs)
next
  case (Suc k)
  then have start: "buffer = TELOMERE_SEQ @ concat (replicate k TELOMERE_SEQ) @ rest"
    by (simp add: buf)
  have some: "front_phase buffer 0 = Some 0"
    unfolding start by (rule front_phase_period)
  have "scan_forward buffer data_end 6 0 = Inr (6 + 6 * k, 0)"
  proof (cases rest)
    case Nil
    have "scan_forward (TELOMERE_SEQ @ concat (replicate k TELOMERE_SEQ)) data_end 6 0 =
          Inr (6 + 6 * k, 0)"
      unfolding data_end start Nil
      by (intro scan_forward_periods_end)
        (simp_all add: length_TELOMERE_SEQ length_concat_periods)
    then show ?thesis
      by (simp add: start Nil)
  next
    case (Cons x xs)
    with rest have x: "x \<noteq> T"
      by simp
    have "6 + 6 * k < data_end"
      unfolding data_end start Cons by (simp add: length_TELOMERE_SEQ length_concat_periods)
    then have "scan_forward (TELOMERE_SEQ @ concat (replicate k TELOMERE_SEQ) @ x # xs)
                 data_end 6 0 = Inr (6 + 6 * k, 0)"
      using x by (intro scan_forward_periods) (simp_all add: length_TELOMERE_SEQ)
    then show ?thesis
      by (simp add: start Cons)
  qed
  with some Suc show ?thesis
    by (simp add: trim_front_def length_TELOMERE_SEQ)
qed

lemma last_six:
  assumes "6 \<le> length xs"
  obtains pre a b c d e f where "xs = pre @ [a, b, c, d, e, f]"
proof -
  have "6 \<le> length (rev xs)"
    using assms by simp
  then obtain a b c d e f rest where "rev xs = a # b # c # d # e # f # rest"
    by (rule six_or_more)
  then have "xs = rev rest @ [f, e, d, c, b, a]"
    by (simp add: rev_swap)
  then show ?thesis
    by (rule that)
qed

lemma trim_back_periods:
  assumes buf: "buffer = pre @ interior @ concat (replicate M TELOMERE_SEQ)"
    and interior: "interior \<noteq> []"
    and start: "data_start < length pre + length interior"
    and room: "data_start + 6 \<le> data_end" and data_end: "data_end = length buffer"
    and periods: "0 < M \<Longrightarrow> last interior \<noteq> G"
    and tail: "M = 0 \<Longrightarrow> \<not> is_rotation (drop (length buffer - 6) buffer) \<and>
                 last interior \<noteq> TELOMERE_SEQ ! telomere_idx"
  shows "trim_back buffer data_start data_end telomere_idx = Inr (data_end - 6 * M)"
proof (cases M)
  case 0
  from room data_end have "6 \<le> length buffer"
    by simp
  then obtain front a b c d e f where six: "buffer = front @ [a, b, c, d, e, f]"
    by (rule last_six)
  then have len: "data_end = length front + 6"
    by (simp add: data_end)
  from tail [OF 0] six have none: "back_phase buffer data_end 0 = Inr None"
    by (simp add: len back_phase_six)
  from 0 interior have "buffer \<noteq> []" and "last buffer = last interior"
    by (simp_all add: buf)
  then have lst: "buffer ! (data_end - 1) = last interior"
    unfolding data_end by (simp add: last_conv_nth)
  have "scan_backward buffer data_start data_end telomere_idx = Inr data_end"
  proof (rule scan_backward_stop)
    show "data_start < data_end"
      using room by simp
    show "data_end \<le> length buffer"
      by (simp add: data_end)
    show "buffer ! (data_end - 1) \<noteq> TELOMERE_SEQ ! telomere_idx"
      using tail [OF 0] lst by simp
  qed
  with none 0 show ?thesis
    by (simp add: trim_back_def)
next
  case (Suc m)
  then have G: "last interior \<noteq> G"
    using periods by simp
  let ?front = "pre @ interior @ concat (replicate m TELOMERE_SEQ)"
  have shape: "buffer = ?front @ TELOMERE_SEQ"
    unfolding buf Suc concat_periods_Suc by simp
  have len: "data_end = length ?front + 6"
    unfolding data_end shape by (simp add: length_TELOMERE_SEQ)
  have some: "back_phase buffer data_end 0 = Inr (Some 5)"
    unfolding shape len by (rule back_phase_period)
  from interior have split: "interior = butlast interior @ [last interior]"
    by simp
  have shape': "buffer = (pre @ butlast interior) @ last interior #
                  concat (replicate m TELOMERE_SEQ) @ TELOMERE_SEQ"
    unfolding shape by (subst split) simp
  have n: "length (pre @ butlast interior) + 1 = length pre + length interior"
    using interior by simp
  have "scan_backward ((pre @ butlast interior) @ last interior #
            concat (replicate m TELOMERE_SEQ) @ TELOMERE_SEQ) data_start
          (length (pre @ butlast interior) + 1 + 6 * m) 5 =
        Inr (length (pre @ butlast interior) + 1)"
    using G start n by (intro scan_backward_periods) simp_all
  then have "scan_backward buffer data_start (data_end - 6) 5 = Inr (data_end - 6 * M)"
    unfolding shape' [symmetric] n
    by (simp add: len Suc length_concat_periods add.assoc)
  with some show ?thesis
    by (simp add: trim_back_def length_TELOMERE_SEQ)
qed

subsection \<open>What the result \<open>(6K, length - 6M)\<close> requires\<close>

lemma scan_forward_skip_periods:
  "length pre = s \<Longrightarrow> s + 6 * j \<le> data_end \<Longrightarrow>
   scan_forward (pre @ concat (replicate j TELOMERE_SEQ) @ rest) data_end s 0 =
   scan_forward (pre @ concat (replicate j TELOMERE_SEQ) @ rest) data_end (s + 6 * j) 0"
proof (induction j arbitrary: pre s)
  case 0
  show ?case
    by simp
next
  case (Suc j)
  let ?rest = "concat (replicate j TELOMERE_SEQ) @ rest"
  have "scan_forward (pre @ TELOMERE_SEQ @ ?rest) data_end s 0 =
        scan_forward (pre @ TELOMERE_SEQ @ ?rest) data_end (s + 6) 0"
    using Suc.prems by (intro scan_forward_one_period) simp_all
  also have "\<dots> = scan_forward ((pre @ TELOMERE_SEQ) @ ?rest) data_end (s + 6) 0"
    by simp
  also have "\<dots> = scan_forward ((pre @ TELOMERE_SEQ) @ ?rest) data_end (s + 6 + 6 * j) 0"
    using Suc.prems by (intro Suc.IH) (simp_all add: length_TELOMERE_SEQ)
  finally show ?case
    by (simp add: add.assoc)
qed

lemma scan_backward_skip_periods:
  "data_start \<le> length pre \<Longrightarrow>
   scan_backward (pre @ concat (replicate j TELOMERE_SEQ) @ rest) data_start
     (length pre + 6 * j) 5 =
   scan_backward (pre @ concat (replicate j TELOMERE_SEQ) @ rest) data_start (length pre) 5"
proof (induction j arbitrary: rest)
  case 0
  show ?case
    by simp
next
  case (Suc j)
  let ?pre = "pre @ concat (replicate j TELOMERE_SEQ)"
  have len: "length ?pre = length pre + 6 * j"
    by (simp add: length_concat_periods)
  have buf: "pre @ concat (replicate (Suc j) TELOMERE_SEQ) @ rest = ?pre @ TELOMERE_SEQ @ rest"
    unfolding concat_periods_Suc by simp
  have "scan_backward (?pre @ TELOMERE_SEQ @ rest) data_start (length pre + 6 * j + 6) 5 =
        scan_backward (?pre @ TELOMERE_SEQ @ rest) data_start (length pre + 6 * j) 5"
    using len Suc.prems by (intro scan_backward_one_period) simp_all
  also have "\<dots> =
      scan_backward (pre @ concat (replicate j TELOMERE_SEQ) @ TELOMERE_SEQ @ rest)
        data_start (length pre + 6 * j) 5"
    by simp
  also have "\<dots> =
      scan_backward (pre @ concat (replicate j TELOMERE_SEQ) @ TELOMERE_SEQ @ rest)
        data_start (length pre) 5"
    using Suc.prems by (intro Suc.IH)
  finally have "scan_backward (?pre @ TELOMERE_SEQ @ rest) data_start (length pre + 6 * j + 6) 5 =
      scan_backward (pre @ concat (replicate j TELOMERE_SEQ) @ TELOMERE_SEQ @ rest)
        data_start (length pre) 5" .
  moreover have e: "length pre + 6 * Suc j = length pre + 6 * j + 6"
    by simp
  ultimately show ?case
    unfolding buf e by simp
qed

lemma trim_Inr:
  assumes "trim buffer data_end = Inr (s, e)"
  obtains t where "trim_front buffer data_end = Inr (s, t)"
    and "data_end < size_t (s + 6) \<Longrightarrow> e = data_end"
    and "\<not> data_end < size_t (s + 6) \<Longrightarrow> trim_back buffer s data_end t = Inr e"
  using assms
  by (auto simp: trim_def length_TELOMERE_SEQ split: sum.splits if_splits)

text \<open>Where the front search lands: after the leading periods, expecting the pattern's first base.\<close>

lemma trim_front_after_periods:
  assumes buf: "buffer = concat (replicate K TELOMERE_SEQ) @ rest"
    and long: "6 \<le> length buffer" and data_end: "data_end = length buffer"
    and head: "K = 0 \<Longrightarrow> \<not> is_rotation (take 6 buffer)"
  shows "trim_front buffer data_end = scan_forward buffer data_end (6 * K) 0"
proof (cases K)
  case 0
  from long obtain a b c d e f r where six: "buffer = a # b # c # d # e # f # r"
    by (rule six_or_more)
  with head [OF 0] have "front_phase buffer 0 = None"
    by (simp add: front_phase_six)
  with 0 show ?thesis
    by (simp add: trim_front_def)
next
  case (Suc k)
  then have start: "buffer = TELOMERE_SEQ @ concat (replicate k TELOMERE_SEQ) @ rest"
    by (simp add: buf)
  have some: "front_phase buffer 0 = Some 0"
    unfolding start by (rule front_phase_period)
  have "6 + 6 * k \<le> data_end"
    unfolding data_end start by (simp add: length_TELOMERE_SEQ length_concat_periods)
  then have "scan_forward (TELOMERE_SEQ @ concat (replicate k TELOMERE_SEQ) @ rest) data_end 6 0 =
        scan_forward (TELOMERE_SEQ @ concat (replicate k TELOMERE_SEQ) @ rest) data_end
          (6 + 6 * k) 0"
    by (intro scan_forward_skip_periods) (simp_all add: length_TELOMERE_SEQ)
  with some Suc show ?thesis
    by (simp add: trim_front_def length_TELOMERE_SEQ start [symmetric])
qed

lemma is_rotation_length: "is_rotation bases \<Longrightarrow> length bases = 6"
  by (auto simp: is_rotation_iff)

lemma trim_front_periods_only_if:
  assumes buf: "buffer = concat (replicate K TELOMERE_SEQ) @ rest"
    and long: "6 \<le> length buffer" and data_end: "data_end = length buffer"
    and res: "trim_front buffer data_end = Inr (6 * K, t)"
  shows "(K = 0 \<longrightarrow> \<not> is_rotation (take 6 buffer)) \<and> (rest \<noteq> [] \<longrightarrow> hd rest \<noteq> T)"
proof -
  have head: "\<not> is_rotation (take 6 buffer)" if K: "K = 0"
  proof
    assume rot: "is_rotation (take 6 buffer)"
    from long obtain a b c d e f r where six: "buffer = a # b # c # d # e # f # r"
      by (rule six_or_more)
    with rot have "front_phase buffer 0 \<noteq> None"
      by (simp add: front_phase_six)
    then obtain t0 where "front_phase buffer 0 = Some t0"
      by auto
    with res K have "scan_forward buffer data_end 6 t0 = Inr (0, t)"
      by (simp add: trim_front_def length_TELOMERE_SEQ)
    from scan_forward_bounds [OF this] long data_end show False
      by simp
  qed
  have scan: "scan_forward buffer data_end (6 * K) 0 = Inr (6 * K, t)"
    using trim_front_after_periods [OF buf long data_end head] res by simp
  have first: "hd rest \<noteq> T" if rest: "rest \<noteq> []"
  proof
    assume T: "hd rest = T"
    from rest obtain xs where xs: "rest = T # xs"
      using T by (cases rest) auto
    have below: "6 * K < data_end"
      unfolding data_end buf xs by (simp add: length_concat_periods)
    have "buffer ! (length (concat (replicate K TELOMERE_SEQ)) + 0) = (T # xs) ! 0"
      unfolding buf xs by (rule nth_append_length_plus)
    then have "buffer ! (6 * K) = T"
      by (simp add: length_concat_periods)
    then have at: "buffer ! (6 * K) = TELOMERE_SEQ ! 0"
      by (simp add: TELOMERE_SEQ_def)
    from below have "6 * K < length buffer"
      by (simp add: data_end)
    from scan_forward_step [OF below this at] scan
    have "scan_forward buffer data_end (6 * K + 1) ((0 + 1) mod 6) = Inr (6 * K, t)"
      by simp
    from scan_forward_bounds [OF this] below show False
      by simp
  qed
  from head first show ?thesis
    by blast
qed

lemma trim_back_periods_only_if:
  assumes buf: "buffer = pre @ interior @ concat (replicate M TELOMERE_SEQ)"
    and interior: "interior \<noteq> []" and start: "data_start = length pre"
    and room: "data_start + 6 \<le> data_end" and data_end: "data_end = length buffer"
    and res: "trim_back buffer data_start data_end telomere_idx = Inr (data_end - 6 * M)"
  shows "(0 < M \<longrightarrow> last interior \<noteq> G) \<and>
         (M = 0 \<longrightarrow> \<not> is_rotation (drop (length buffer - 6) buffer) \<and>
            last interior \<noteq> TELOMERE_SEQ ! telomere_idx)"
proof -
  have periods: "last interior \<noteq> G" if "0 < M"
  proof
    assume G: "last interior = G"
    from that obtain m where M: "M = Suc m"
      by (cases M) auto
    let ?inner = "pre @ interior"
    let ?front = "?inner @ concat (replicate m TELOMERE_SEQ)"
    have shape: "buffer = ?front @ TELOMERE_SEQ"
      unfolding buf M concat_periods_Suc by simp
    have len: "data_end = length ?front + 6"
      unfolding data_end shape by (simp add: length_TELOMERE_SEQ)
    have "back_phase buffer data_end 0 = Inr (Some 5)"
      unfolding shape len by (rule back_phase_period)
    with res have "scan_backward buffer data_start (data_end - 6) 5 = Inr (data_end - 6 * M)"
      by (simp add: trim_back_def length_TELOMERE_SEQ)
    then have scan: "scan_backward buffer data_start (length ?inner + 6 * m) 5 =
        Inr (length ?inner)"
      by (simp add: len M length_concat_periods add.assoc)
    have "scan_backward (?inner @ concat (replicate m TELOMERE_SEQ) @ TELOMERE_SEQ) data_start
            (length ?inner + 6 * m) 5 =
          scan_backward (?inner @ concat (replicate m TELOMERE_SEQ) @ TELOMERE_SEQ) data_start
            (length ?inner) 5"
      by (rule scan_backward_skip_periods) (simp add: start)
    with scan have inner: "scan_backward buffer data_start (length ?inner) 5 = Inr (length ?inner)"
      by (simp add: shape)
    have below: "data_start < length ?inner"
      using interior by (simp add: start)
    have within: "length ?inner \<le> length buffer"
      by (simp add: buf)
    have "buffer ! (length ?inner - 1) = ?inner ! (length ?inner - 1)"
      unfolding buf using interior by (simp add: nth_append)
    also have "\<dots> = last ?inner"
      using interior by (simp add: last_conv_nth)
    also have "\<dots> = TELOMERE_SEQ ! 5"
      using interior G by (simp add: TELOMERE_SEQ_def)
    finally have at: "buffer ! (length ?inner - 1) = TELOMERE_SEQ ! 5" .
    from scan_backward_step [OF below within at] inner
    have "scan_backward buffer data_start (length ?inner - 1) ((6 + 5 - 1) mod 6) =
          Inr (length ?inner)"
      by simp
    moreover from below have "data_start \<le> length ?inner - 1"
      by simp
    ultimately have "length ?inner \<le> length ?inner - 1"
      using scan_backward_bounds by blast
    with below show False
      by simp
  qed
  have tail: "\<not> is_rotation (drop (length buffer - 6) buffer) \<and>
      last interior \<noteq> TELOMERE_SEQ ! telomere_idx" if M: "M = 0"
  proof -
    from room data_end have long: "6 \<le> length buffer"
      by simp
    then obtain front a b c d e f where six: "buffer = front @ [a, b, c, d, e, f]"
      by (rule last_six)
    then have len: "data_end = length front + 6"
      by (simp add: data_end)
    from res M have res': "trim_back buffer data_start data_end telomere_idx = Inr data_end"
      by simp
    have no_rot: "\<not> is_rotation (drop (length buffer - 6) buffer)"
    proof
      assume "is_rotation (drop (length buffer - 6) buffer)"
      with six have "back_phase buffer data_end 0 \<noteq> Inr None"
        by (simp add: len back_phase_six)
      moreover from long data_end have "0 < data_end" and "data_end \<le> length buffer"
        by auto
      then obtain found where "back_phase buffer data_end 0 = Inr found"
        using back_phase_total by blast
      ultimately obtain t' where "back_phase buffer data_end 0 = Inr (Some t')"
        by (cases found) auto
      with res' have "scan_backward buffer data_start (data_end - 6) t' = Inr data_end"
        by (simp add: trim_back_def length_TELOMERE_SEQ)
      moreover from room have "data_start \<le> data_end - 6"
        by simp
      ultimately have "data_end \<le> data_end - 6"
        using scan_backward_bounds by blast
      with long data_end show False
        by simp
    qed
    with six have none: "back_phase buffer data_end 0 = Inr None"
      by (simp add: len back_phase_six)
    have "last interior \<noteq> TELOMERE_SEQ ! telomere_idx"
    proof
      assume T: "last interior = TELOMERE_SEQ ! telomere_idx"
      from res' none have scan: "scan_backward buffer data_start data_end telomere_idx =
          Inr data_end"
        by (simp add: trim_back_def)
      from M interior have "buffer \<noteq> []" and "last buffer = last interior"
        by (simp_all add: buf)
      then have at: "buffer ! (data_end - 1) = TELOMERE_SEQ ! telomere_idx"
        unfolding data_end using T by (simp add: last_conv_nth)
      have below: "data_start < data_end"
        using room by simp
      have within: "data_end \<le> length buffer"
        by (simp add: data_end)
      from scan_backward_step [OF below within at] scan
      have "scan_backward buffer data_start (data_end - 1) ((6 + telomere_idx - 1) mod 6) =
            Inr data_end"
        by simp
      moreover from below have "data_start \<le> data_end - 1"
        by simp
      ultimately have "data_end \<le> data_end - 1"
        using scan_backward_bounds by blast
      with below show False
        by simp
    qed
    with no_rot show ?thesis
      by simp
  qed
  from periods tail show ?thesis
    by blast
qed

text \<open>
  The conditions under which the range is \<open>(6K, length - 6M)\<close> cannot be weakened: a
  sequence of \<open>K\<close> periods, an interior and \<open>M\<close> periods that gets this range satisfies
  each of them.
\<close>

lemma full_periods_conditions_necessary:
  assumes bases: "unpack_all (m_data helix) = bases"
    and seq: "bases = concat (replicate K TELOMERE_SEQ) @ interior @
                concat (replicate M TELOMERE_SEQ)"
    and fit: "addressable helix"
    and chunk: "6 \<le> length bases \<Longrightarrow> single_chunk helix"
    and res: "fst (getDataRange helix) = Inr (6 * K, length bases - 6 * M)"
  shows "(K = 0 \<longrightarrow> \<not> is_rotation (take 6 bases)) \<and>
         (6 \<le> length bases \<longrightarrow> interior \<noteq> [] \<longrightarrow> hd interior \<noteq> T) \<and>
         (0 < M \<longrightarrow> interior \<noteq> [] \<and> last interior \<noteq> G) \<and>
         (M = 0 \<longrightarrow> 6 * K + 6 \<le> length bases \<longrightarrow>
            \<not> is_rotation (drop (length bases - 6) bases) \<and> last interior \<noteq> T)"
proof (cases "length bases < 6")
  case True
  have parts: "length bases = 6 * K + length interior + 6 * M"
    by (subst seq) (simp add: length_concat_periods)
  from True have "\<not> is_rotation (take 6 bases)"
    using is_rotation_length [of "take 6 bases"] by auto
  with True parts show ?thesis
    by auto
next
  case False
  let ?n = "length bases"
  let ?rest = "interior @ concat (replicate M TELOMERE_SEQ)"
  from False have long: "6 \<le> ?n"
    by simp
  have n: "?n = size_h helix * packed_size"
    unfolding bases [symmetric] by (simp add: length_unpack_all size_h_def)
  have parts: "?n = 6 * K + length interior + 6 * M"
    by (subst seq) (simp add: length_concat_periods)
  from fit have small: "?n + 6 < 2 ^ 64"
    by (simp add: addressable_def n length_TELOMERE_SEQ)
  have data_end: "size_t (size_h helix * packed_size) = ?n"
    using small by (simp add: n size_t_id)
  have "fst (getDataRange helix) = trim bases ?n"
    using getDataRange_long [of helix] long
    by (simp add: data_end length_TELOMERE_SEQ read_seek_single_chunk [OF chunk [OF long]] bases)
  with res have "trim bases ?n = Inr (6 * K, ?n - 6 * M)"
    by simp
  then obtain t where front: "trim_front bases ?n = Inr (6 * K, t)"
    and bk: "\<not> ?n < size_t (6 * K + 6) \<Longrightarrow> trim_back bases (6 * K) ?n t = Inr (?n - 6 * M)"
    by (rule trim_Inr) blast
  have nowrap: "size_t (6 * K + 6) = 6 * K + 6"
    using small parts by (intro size_t_id) simp
  have seq': "bases = concat (replicate K TELOMERE_SEQ) @ ?rest"
    by (rule seq)
  from trim_front_periods_only_if [OF seq' long refl front]
  have head: "K = 0 \<Longrightarrow> \<not> is_rotation (take 6 bases)"
    and rest: "?rest \<noteq> [] \<Longrightarrow> hd ?rest \<noteq> T"
    by simp_all
  have first: "hd interior \<noteq> T" if "interior \<noteq> []"
    using rest that by simp
  have nonempty: "interior \<noteq> []" if "0 < M"
  proof
    assume "interior = []"
    moreover from that obtain m where "M = Suc m"
      by (cases M) auto
    ultimately show False
      using rest by (simp add: TELOMERE_SEQ_def)
  qed
  from trim_front_periods [OF seq' rest long refl head] front have t: "t = 0"
    by simp
  have ends: "(0 < M \<longrightarrow> last interior \<noteq> G) \<and>
      (M = 0 \<longrightarrow> \<not> is_rotation (drop (?n - 6) bases) \<and> last interior \<noteq> T)"
    if room: "6 * K + 6 \<le> ?n"
  proof -
    have "interior \<noteq> []"
    proof (cases "M = 0")
      case True
      with room parts show ?thesis
        by auto
    next
      case False
      then show ?thesis
        using nonempty by simp
    qed
    moreover have "6 * K = length (concat (replicate K TELOMERE_SEQ))"
      by (simp add: length_concat_periods)
    moreover have "trim_back bases (6 * K) ?n 0 = Inr (?n - 6 * M)"
      using bk room nowrap t by simp
    ultimately show ?thesis
      using trim_back_periods_only_if [OF seq _ _ room refl, of 0]
      by (simp add: TELOMERE_SEQ_def)
  qed
  have "6 * K + 6 \<le> ?n" if "0 < M"
    using nonempty [OF that] that parts by (cases interior) auto
  with ends have "0 < M \<longrightarrow> interior \<noteq> [] \<and> last interior \<noteq> G"
    using nonempty by blast
  with head first ends show ?thesis
    by blast
qed

section \<open>The claims\<close>

text \<open>
  C1. The range does not depend on the chunk size. The source does not achieve this: on the
  data of its own test "small helix buffer chunk size", a stream delivering everything in
  one chunk is trimmed to \<open>[20, 30)\<close>, as the test expects, while the same data delivered
  in chunks of one storage unit is not: the run indexes past the chunk instead.
\<close>

theorem getDataRange_chunk_size_dependent:
  "fst (getDataRange (mk_fake_stream small_chunk_fixture 128)) = Inr (20, 30) \<and>
   fst (getDataRange (mk_fake_stream small_chunk_fixture 1)) \<noteq>
   fst (getDataRange (mk_fake_stream small_chunk_fixture 128))"
  by (simp add: small_chunk_fixture_def run_simps)

text \<open>
  C2. Every index applied to the chunk lies within it. The source does not achieve this:
  with chunks of one storage unit (4 bases) the forward scan reads \<open>buffer[6]\<close> on the
  data of the test, and the backward search reads \<open>buffer[7]\<close> on eight bases of C.
\<close>

theorem getDataRange_reads_past_chunk:
  "fst (read (seek 0 (mk_fake_stream small_chunk_fixture 1))) = [G, G, T, T] \<and>
   fst (getDataRange (mk_fake_stream small_chunk_fixture 1)) = Inl (OutOfBounds 6 4) \<and>
   fst (getDataRange (mk_fake_stream [pack C C C C, pack C C C C] 1)) = Inl (OutOfBounds 7 4)"
  by (simp add: small_chunk_fixture_def run_simps)

text \<open>
  C3, as stated: \<open>K\<close> full periods, interior data, \<open>M\<close> full periods, the interior neither
  beginning nor ending with a further full period, give \<open>start = 6K\<close> and
  \<open>end = length - 6M\<close>. The data of the test "Partial telomere at end",
  \<open>CCCCCCCCTTAGGGTT\<close>, is such a sequence with \<open>K = M = 0\<close> (it ends with \<open>GGGTT\<close>, not
  with a full period), and its range is \<open>[0, 8)\<close>, as that test expects, not \<open>[0, 16)\<close>.
\<close>

theorem getDataRange_partial_period_counterexample:
  "unpack_all partial_end_fixture =
     concat (replicate 0 TELOMERE_SEQ) @ unpack_all partial_end_fixture @
     concat (replicate 0 TELOMERE_SEQ) \<and>
   take 6 (unpack_all partial_end_fixture) \<noteq> TELOMERE_SEQ \<and>
   drop (length (unpack_all partial_end_fixture) - 6) (unpack_all partial_end_fixture)
     \<noteq> TELOMERE_SEQ \<and>
   fst (getDataRange (mk_fake_stream partial_end_fixture 128)) = Inr (0, 8) \<and>
   fst (getDataRange (mk_fake_stream partial_end_fixture 128)) \<noteq>
     Inr (6 * 0, length (unpack_all partial_end_fixture) - 6 * 0)"
  by (simp add: partial_end_fixture_def run_simps)

text \<open>
  C3, amended: for a sequence of bases whose length plus 6 is below \<open>2^64\<close>, that consists
  of \<open>K\<close> full periods, interior data and \<open>M\<close> full periods, and that is delivered in a
  single chunk if it has 6 bases or more, the range is \<open>start = 6K\<close>,
  \<open>end = length - 6M\<close>, provided that
  \<^item> when \<open>K = 0\<close>, the first six bases are no rotation of the pattern;
  \<^item> when the sequence has 6 bases or more and the interior is not empty, the interior
    does not begin with T;
  \<^item> when \<open>M > 0\<close>, the interior is not empty and does not end with G;
  \<^item> when \<open>M = 0\<close> and at least 6 bases follow the \<open>K\<close> leading periods, the last six
    bases are no rotation of the pattern and the last base is not T.

  In particular (\<open>K = M = 0\<close>) a sequence of 6 bases or more whose first and last six
  bases are no rotations of the pattern and which neither begins nor ends with T is
  returned unchanged. Nothing is required of the bases strictly inside the interior:
  whatever they are, none of them is trimmed.
\<close>

theorem getDataRange_full_periods:
  assumes bases: "unpack_all (m_data helix) = bases"
    and seq: "bases = concat (replicate K TELOMERE_SEQ) @ interior @
                concat (replicate M TELOMERE_SEQ)"
    and fit: "addressable helix"
    and chunk: "6 \<le> length bases \<Longrightarrow> single_chunk helix"
    and head: "K = 0 \<Longrightarrow> \<not> is_rotation (take 6 bases)"
    and first: "6 \<le> length bases \<Longrightarrow> interior \<noteq> [] \<Longrightarrow> hd interior \<noteq> T"
    and periods: "0 < M \<Longrightarrow> interior \<noteq> [] \<and> last interior \<noteq> G"
    and tail: "M = 0 \<Longrightarrow> 6 * K + 6 \<le> length bases \<Longrightarrow>
                 \<not> is_rotation (drop (length bases - 6) bases) \<and> last interior \<noteq> T"
  shows "fst (getDataRange helix) = Inr (6 * K, length bases - 6 * M)"
proof -
  let ?n = "length bases"
  have n: "?n = size_h helix * packed_size"
    unfolding bases [symmetric] by (simp add: length_unpack_all size_h_def)
  have parts: "?n = 6 * K + length interior + 6 * M"
    by (subst seq) (simp add: length_concat_periods)
  from fit have small: "?n + 6 < 2 ^ 64"
    by (simp add: addressable_def n length_TELOMERE_SEQ)
  show ?thesis
  proof (cases "?n < 6")
    case True
    with parts have "K = 0" "M = 0"
      by simp_all
    with True show ?thesis
      using getDataRange_short [of helix] by (simp add: n length_TELOMERE_SEQ)
  next
    case False
    then have long: "6 \<le> ?n"
      by simp
    have data_end: "size_t (size_h helix * packed_size) = ?n"
      using small by (simp add: n size_t_id)
    have run: "fst (getDataRange helix) = trim bases ?n"
      using getDataRange_long [of helix] long
      by (simp add: data_end length_TELOMERE_SEQ read_seek_single_chunk [OF chunk [OF long]]
          bases)
    have front: "trim_front bases ?n = Inr (6 * K, 0)"
    proof (rule trim_front_periods)
      show "bases = concat (replicate K TELOMERE_SEQ) @
              (interior @ concat (replicate M TELOMERE_SEQ))"
        by (rule seq)
      show "hd (interior @ concat (replicate M TELOMERE_SEQ)) \<noteq> T"
        if "interior @ concat (replicate M TELOMERE_SEQ) \<noteq> []"
      proof (cases "interior = []")
        case True
        with periods have "M = 0"
          by auto
        with True that show ?thesis
          by simp
      next
        case False
        with first [OF long] show ?thesis
          by simp
      qed
      show "6 \<le> ?n"
        by (rule long)
      show "K = 0 \<Longrightarrow> \<not> is_rotation (take 6 bases)"
        by (rule head)
    qed (rule refl)
    have nowrap: "size_t (6 * K + 6) = 6 * K + 6"
      using small parts by (intro size_t_id) simp
    show ?thesis
    proof (cases "?n < 6 * K + 6")
      case True
      with parts have "M = 0"
        by simp
      with True front nowrap show ?thesis
        by (simp add: run trim_def length_TELOMERE_SEQ)
    next
      case False
      then have room: "6 * K + 6 \<le> ?n"
        by simp
      have nonempty: "interior \<noteq> []"
      proof (cases "M = 0")
        case True
        with room parts show ?thesis
          by auto
      next
        case False
        with periods show ?thesis
          by simp
      qed
      have "trim_back bases (6 * K) ?n 0 = Inr (?n - 6 * M)"
      proof (rule trim_back_periods [where pre = "concat (replicate K TELOMERE_SEQ)"])
        show "bases = concat (replicate K TELOMERE_SEQ) @ interior @
                concat (replicate M TELOMERE_SEQ)"
          by (rule seq)
        show "interior \<noteq> []"
          by (rule nonempty)
        show "6 * K < length (concat (replicate K TELOMERE_SEQ)) + length interior"
          using nonempty by (simp add: length_concat_periods)
        show "6 * K + 6 \<le> ?n"
          by (rule room)
        show "last interior \<noteq> G" if "0 < M"
          using periods [OF that] by simp
        show "\<not> is_rotation (drop (?n - 6) bases) \<and> last interior \<noteq> TELOMERE_SEQ ! 0"
          if "M = 0"
          using tail [OF that room] by (simp add: TELOMERE_SEQ_def)
      qed (rule refl)
      with False front nowrap show ?thesis
        by (simp add: run trim_def length_TELOMERE_SEQ)
    qed
  qed
qed

theorem getDataRange_full_periods_witness:
  "fst (getDataRange (mk_fake_stream full_periods_fixture 128)) = Inr (12, 18) \<and>
   fst (getDataRange (mk_fake_stream [pack C C C C, pack C C C C] 128)) = Inr (0, 8) \<and>
   fst (getDataRange (mk_fake_stream [pack T T A G, pack G G C A, pack C A C G] 128)) =
     Inr (6, 12) \<and>
   fst (getDataRange (mk_fake_stream [pack T T A G] 128)) = Inr (0, 4)"
proof -
  have "fst (getDataRange (mk_fake_stream full_periods_fixture 128)) =
        Inr (6 * Suc (Suc 0), length (unpack_all full_periods_fixture) - 6 * Suc 0)"
    by (rule getDataRange_full_periods [where interior = "[C, A, T, G, A, C]"])
      (simp_all add: full_periods_fixture_def mk_fake_stream_def unpack_all_def pack_def
        TELOMERE_SEQ_def single_chunk_def addressable_def size_h_def packed_size_def)
  moreover
  have "fst (getDataRange (mk_fake_stream [pack C C C C, pack C C C C] 128)) =
        Inr (6 * 0, length (unpack_all [pack C C C C, pack C C C C]) - 6 * 0)"
    by (rule getDataRange_full_periods [where interior = "[C, C, C, C, C, C, C, C]"])
      (simp_all add: mk_fake_stream_def unpack_all_def pack_def
        TELOMERE_SEQ_def single_chunk_def addressable_def size_h_def packed_size_def
        is_rotation_iff)
  moreover
  have "fst (getDataRange (mk_fake_stream [pack T T A G, pack G G C A, pack C A C G] 128)) =
        Inr (6 * Suc 0, length (unpack_all [pack T T A G, pack G G C A, pack C A C G]) - 6 * 0)"
    by (rule getDataRange_full_periods [where interior = "[C, A, C, A, C, G]"])
      (simp_all add: mk_fake_stream_def unpack_all_def pack_def
        TELOMERE_SEQ_def single_chunk_def addressable_def size_h_def packed_size_def
        is_rotation_iff)
  moreover
  have "fst (getDataRange (mk_fake_stream [pack T T A G] 128)) =
        Inr (6 * 0, length (unpack_all [pack T T A G]) - 6 * 0)"
    by (rule getDataRange_full_periods [where interior = "[T, T, A, G]"])
      (simp_all add: mk_fake_stream_def unpack_all_def pack_def
        TELOMERE_SEQ_def single_chunk_def addressable_def size_h_def packed_size_def
        is_rotation_iff)
  ultimately show ?thesis
    by (simp add: full_periods_fixture_def unpack_all_def pack_def)
qed

text \<open>
  C4. When no rotation of the pattern matches the head (the tail), nothing is trimmed at
  that end. The source trims all the same: the scans run after a failed search, so a
  leading T is dropped from \<open>TCCCCCCC\<close> and a trailing T from \<open>CCCCCCCT\<close>; and after
  \<open>TTAGGGTT\<close> at the front, where the forward scan stops expecting A, a trailing A is
  dropped from \<open>TTAGGGTTCCCCCCCA\<close>.
\<close>

theorem getDataRange_trims_unmatched_ends:
  "\<not> is_rotation (take 6 (unpack_all [pack T C C C, pack C C C C])) \<and>
   fst (getDataRange (mk_fake_stream [pack T C C C, pack C C C C] 128)) = Inr (1, 8) \<and>
   \<not> is_rotation (drop 2 (unpack_all [pack C C C C, pack C C C T])) \<and>
   fst (getDataRange (mk_fake_stream [pack C C C C, pack C C C T] 128)) = Inr (0, 7) \<and>
   \<not> is_rotation (drop 10 (unpack_all [pack T T A G, pack G G T T, pack C C C C, pack C C C A])) \<and>
   fst (getDataRange
          (mk_fake_stream [pack T T A G, pack G G T T, pack C C C C, pack C C C A] 128)) =
     Inr (8, 15)"
  by (simp add: is_rotation_iff run_simps)

text \<open>
  C5. With \<open>L\<close> the length in bases as \<open>getSex\<close> computes it (the product of \<open>size()\<close>
  and the packed factor, whenever that fits \<open>size_t\<close>): strictly inside the X band
  the result is X, strictly inside the Y band it is Y, at or outside both bands it is the
  sentinel (Unknown); so it is for \<open>L = 0\<close> and \<open>L = 100,000,000\<close>.
\<close>

theorem getSex_bands:
  "(size_h h * packed_size < 2 ^ 64 \<longrightarrow> helix_len h = size_h h * packed_size) \<and>
   (124800000 < helix_len h \<and> helix_len h < 195000000 \<longrightarrow> getSex h = X) \<and>
   (45600000 < helix_len h \<and> helix_len h < 71250000 \<longrightarrow> getSex h = Y) \<and>
   ((helix_len h \<le> 124800000 \<or> 195000000 \<le> helix_len h) \<and>
    (helix_len h \<le> 45600000 \<or> 71250000 \<le> helix_len h) \<longrightarrow> getSex h = MAX_sex) \<and>
   (helix_len h = 0 \<longrightarrow> getSex h = MAX_sex) \<and>
   (helix_len h = 100000000 \<longrightarrow> getSex h = MAX_sex)"
  by (simp add: getSex_def X_CHROMOSOME_LEN_def Y_CHROMOSOME_LEN_def helix_len_def size_t_id)

theorem getSex_bands_witness:
  "helix_len (sized_stream 39000000) = 156000000 \<and> getSex (sized_stream 39000000) = X \<and>
   helix_len (sized_stream 14250000) = 57000000 \<and> getSex (sized_stream 14250000) = Y \<and>
   helix_len (sized_stream 100000000) = 400000000 \<and> getSex (sized_stream 100000000) = MAX_sex \<and>
   helix_len (sized_stream 0) = 0 \<and> getSex (sized_stream 0) = MAX_sex \<and>
   helix_len (sized_stream 25000000) = 100000000 \<and> getSex (sized_stream 25000000) = MAX_sex"
  using getSex_bands [of "sized_stream 39000000"] getSex_bands [of "sized_stream 14250000"]
    getSex_bands [of "sized_stream 100000000"] getSex_bands [of "sized_stream 0"]
    getSex_bands [of "sized_stream 25000000"]
  by (simp add: helix_len_sized_stream)

text \<open>
  C6, as stated: a length at an endpoint of the closed band is classified X (or Y).
  The comparisons of \<open>getSex\<close> are strict, so at each of the four endpoints it is not.
\<close>

theorem getSex_closed_band_counterexample:
  "helix_len (sized_stream 31200000) = 124800000 \<and> getSex (sized_stream 31200000) \<noteq> X \<and>
   helix_len (sized_stream 48750000) = 195000000 \<and> getSex (sized_stream 48750000) \<noteq> X \<and>
   helix_len (sized_stream 11400000) = 45600000 \<and> getSex (sized_stream 11400000) \<noteq> Y \<and>
   helix_len (sized_stream 17812500) = 71250000 \<and> getSex (sized_stream 17812500) \<noteq> Y"
  by (simp add: getSex_def X_CHROMOSOME_LEN_def Y_CHROMOSOME_LEN_def helix_len_sized_stream)

text \<open>
  C6, amended: the bands are open. At each of the four endpoints \<open>getSex\<close> returns the
  sentinel (Unknown); strictly between the endpoints of the X band it returns X, and
  strictly between those of the Y band it returns Y.
\<close>

theorem getSex_open_bands:
  "(helix_len h = 124800000 \<or> helix_len h = 195000000 \<or>
    helix_len h = 45600000 \<or> helix_len h = 71250000 \<longrightarrow> getSex h = MAX_sex) \<and>
   (124800000 < helix_len h \<and> helix_len h < 195000000 \<longrightarrow> getSex h = X) \<and>
   (45600000 < helix_len h \<and> helix_len h < 71250000 \<longrightarrow> getSex h = Y)"
  by (auto simp add: getSex_def X_CHROMOSOME_LEN_def Y_CHROMOSOME_LEN_def)

theorem getSex_open_bands_witness:
  "getSex (sized_stream 31200000) = MAX_sex \<and> getSex (sized_stream 31200001) = X \<and>
   getSex (sized_stream 17812500) = MAX_sex \<and> getSex (sized_stream 17812499) = Y"
  using getSex_open_bands [of "sized_stream 31200000"] getSex_open_bands [of "sized_stream 31200001"]
    getSex_open_bands [of "sized_stream 17812500"] getSex_open_bands [of "sized_stream 17812499"]
  by (simp add: helix_len_sized_stream)

text \<open>
  C7. \<open>compare\<close> fails with \<open>InvalidInput\<close> exactly when one of the two persons reports
  a chromosome count other than 23, and then no stream has been obtained, classified or
  read: the trace is empty.
\<close>

theorem compare_InvalidInput_iff:
  "(fst (compare pa pb) = Inl InvalidInput \<longleftrightarrow> chromosomes pa \<noteq> 23 \<or> chromosomes pb \<noteq> 23) \<and>
   (chromosomes pa \<noteq> 23 \<or> chromosomes pb \<noteq> 23 \<longrightarrow> snd (compare pa pb) = [])"
proof -
  have "fst (compare_loop pa pb 0 [] []) \<noteq> Inl InvalidInput"
    using compare_loop_Inl [of pa pb 0 "[]" "[]" InvalidInput] by blast
  then show ?thesis
    by (simp add: compare_def NUM_CHROMOSOMES_def)
qed

theorem compare_InvalidInput_iff_witness:
  "fst (compare (sample_person 22 autosome_fixture (sized_stream 39000000))
          (sample_person 23 autosome_fixture (sized_stream 39000000))) = Inl InvalidInput \<and>
   snd (compare (sample_person 22 autosome_fixture (sized_stream 39000000))
          (sample_person 23 autosome_fixture (sized_stream 39000000))) = [] \<and>
   fst (compare (sample_person 23 autosome_fixture (sized_stream 39000000))
          (sample_person 24 autosome_fixture (sized_stream 39000000))) = Inl InvalidInput \<and>
   fst (compare (sample_person 23 autosome_fixture (sized_stream 39000000))
          (sample_person 23 autosome_fixture (sized_stream 39000000))) \<noteq> Inl InvalidInput"
  using compare_InvalidInput_iff
      [of "sample_person 22 autosome_fixture (sized_stream 39000000)"
          "sample_person 23 autosome_fixture (sized_stream 39000000)"]
    compare_InvalidInput_iff
      [of "sample_person 23 autosome_fixture (sized_stream 39000000)"
          "sample_person 24 autosome_fixture (sized_stream 39000000)"]
    compare_InvalidInput_iff
      [of "sample_person 23 autosome_fixture (sized_stream 39000000)"
          "sample_person 23 autosome_fixture (sized_stream 39000000)"]
  by (simp add: sample_person_def)

text \<open>
  C8. For two valid persons whose sex classifications differ, or one of which is the
  sentinel (Unknown), the list returned by \<open>compare\<close> has no Difference with chromosome
  index 22; indeed the streams of that chromosome are never handed to \<open>getDataRange\<close>.
\<close>

theorem compare_skips_sex_chromosome:
  assumes "chromosomes pa = 23" and "chromosomes pb = 23"
    and "getSex (chromosome pa 22) \<noteq> getSex (chromosome pb 22) \<or>
         getSex (chromosome pa 22) = MAX_sex \<or> getSex (chromosome pb 22) = MAX_sex"
  shows "(\<forall>ds. fst (compare pa pb) = Inr ds \<longrightarrow> (\<forall>d \<in> set ds. chromosome_idx d \<noteq> 22)) \<and>
         (\<forall>s. Trim s 22 \<notin> set (snd (compare pa pb)))"
proof -
  from assms(3) have skip:
    "getSex (chromosome pa SEX_CHROMOSOME_IDX) \<noteq> getSex (chromosome pb SEX_CHROMOSOME_IDX) \<or>
     getSex (chromosome pa SEX_CHROMOSOME_IDX) = MAX_sex"
    by (auto simp: SEX_CHROMOSOME_IDX_def)
  have cmp: "compare pa pb = compare_loop pa pb 0 [] []"
    using assms(1,2) by (simp add: compare_def NUM_CHROMOSOMES_def)
  have "\<forall>ds. fst (compare pa pb) = Inr ds \<longrightarrow> ds = []"
    using compare_loop_Inr [of pa pb 0 "[]" "[]"] by (simp add: cmp)
  moreover have "\<forall>s. Trim s 22 \<notin> set (snd (compare pa pb))"
    using compare_loop_skip [OF skip, of _ "[]" 0 "[]"]
    by (simp add: cmp SEX_CHROMOSOME_IDX_def)
  ultimately show ?thesis
    by auto
qed

theorem compare_skips_sex_chromosome_witness:
  "getSex (sized_stream 39000000) = X \<and> getSex (sized_stream 14250000) = Y \<and>
   fst (compare (sample_person 23 autosome_fixture (sized_stream 39000000))
          (sample_person 23 autosome_fixture (sized_stream 14250000))) = Inr [] \<and>
   (\<forall>s. Trim s 22 \<notin> set (snd (compare (sample_person 23 autosome_fixture (sized_stream 39000000))
                                   (sample_person 23 autosome_fixture (sized_stream 14250000)))))"
proof -
  have sexes: "getSex (sized_stream 39000000) = X" "getSex (sized_stream 14250000) = Y"
    by (simp_all add: getSex_def helix_len_sized_stream X_CHROMOSOME_LEN_def Y_CHROMOSOME_LEN_def)
  have "fst (compare_loop (sample_person 23 autosome_fixture (sized_stream 39000000))
               (sample_person 23 autosome_fixture (sized_stream 14250000)) 0 [] []) = Inr []"
    by (rule compare_loop_total)
      (simp add: sample_person_def single_chunk_sized_stream single_chunk_mk_fake_stream
        autosome_fixture_def)
  then have run: "fst (compare (sample_person 23 autosome_fixture (sized_stream 39000000))
                         (sample_person 23 autosome_fixture (sized_stream 14250000))) = Inr []"
    by (simp add: compare_def sample_person_def NUM_CHROMOSOMES_def)
  from sexes run show ?thesis
    using compare_skips_sex_chromosome
      [of "sample_person 23 autosome_fixture (sized_stream 39000000)"
          "sample_person 23 autosome_fixture (sized_stream 14250000)"]
    by (simp add: sample_person_def SEX_CHROMOSOME_IDX_def)
qed

text \<open>
  C9. The range returned by \<open>getDataRange\<close> satisfies \<open>0 \<le> start \<le> end \<le>\<close> length in
  bases; a stream delivered in one chunk always gets a range; an empty stream gets
  \<open>[0, 0)\<close>; a stream shorter than one period is returned whole.
\<close>

theorem getDataRange_bounds:
  "(\<forall>s e. addressable helix \<and> fst (getDataRange helix) = Inr (s, e) \<longrightarrow>
      0 \<le> s \<and> s \<le> e \<and> e \<le> size_h helix * packed_size) \<and>
   (single_chunk helix \<longrightarrow> (\<exists>s e. fst (getDataRange helix) = Inr (s, e))) \<and>
   (size_h helix = 0 \<longrightarrow> fst (getDataRange helix) = Inr (0, 0)) \<and>
   (size_h helix * packed_size < length TELOMERE_SEQ \<longrightarrow>
      fst (getDataRange helix) = Inr (0, size_h helix * packed_size))"
proof (intro conjI allI impI)
  fix s e
  assume a: "addressable helix \<and> fst (getDataRange helix) = Inr (s, e)"
  then have fit: "size_h helix * packed_size + length TELOMERE_SEQ < 2 ^ 64"
    by (simp add: addressable_def)
  then have len: "size_t (size_h helix * packed_size) = size_h helix * packed_size"
    by (intro size_t_id) simp
  show "s \<le> e"  "e \<le> size_h helix * packed_size"
  proof -
    have "s \<le> e \<and> e \<le> size_h helix * packed_size"
    proof (cases "size_h helix * packed_size < length TELOMERE_SEQ")
      case True
      with a show ?thesis
        by (simp add: getDataRange_short)
    next
      case False
      with a len have "trim (fst (read (seek 0 helix))) (size_h helix * packed_size) = Inr (s, e)"
        by (simp add: getDataRange_long)
      from trim_bounds [OF this] False fit show ?thesis
        by simp
    qed
    then show "s \<le> e"  "e \<le> size_h helix * packed_size"
      by simp_all
  qed
next
  assume "single_chunk helix"
  then show "\<exists>s e. fst (getDataRange helix) = Inr (s, e)"
    by (rule getDataRange_total)
next
  assume "size_h helix = 0"
  then show "fst (getDataRange helix) = Inr (0, 0)"
    using getDataRange_short [of helix] by (simp add: length_TELOMERE_SEQ)
next
  assume "size_h helix * packed_size < length TELOMERE_SEQ"
  then show "fst (getDataRange helix) = Inr (0, size_h helix * packed_size)"
    by (rule getDataRange_short)
qed simp

theorem getDataRange_bounds_witness:
  "addressable (mk_fake_stream small_chunk_fixture 128) \<and>
   single_chunk (mk_fake_stream small_chunk_fixture 128) \<and>
   fst (getDataRange (mk_fake_stream small_chunk_fixture 128)) = Inr (20, 30) \<and>
   (20::nat) \<le> 30 \<and> 30 \<le> size_h (mk_fake_stream small_chunk_fixture 128) * packed_size \<and>
   fst (getDataRange (mk_fake_stream [] 128)) = Inr (0, 0) \<and>
   fst (getDataRange (mk_fake_stream [pack T T A G] 128)) = Inr (0, 4)"
proof -
  have run: "fst (getDataRange (mk_fake_stream small_chunk_fixture 128)) = Inr (20, 30)"
    by (simp add: small_chunk_fixture_def run_simps)
  have fit: "addressable (mk_fake_stream small_chunk_fixture 128)"
    "single_chunk (mk_fake_stream small_chunk_fixture 128)"
    by (simp_all add: addressable_def single_chunk_def small_chunk_fixture_def mk_fake_stream_def
        size_h_def packed_size_def TELOMERE_SEQ_def)
  from getDataRange_bounds [of "mk_fake_stream small_chunk_fixture 128"] run fit
  have "(20::nat) \<le> 30 \<and> 30 \<le> size_h (mk_fake_stream small_chunk_fixture 128) * packed_size"
    by blast
  moreover have "size_h (mk_fake_stream [] 128) = 0"
    by (simp add: size_h_def mk_fake_stream_def)
  with getDataRange_bounds [of "mk_fake_stream [] 128"]
  have "fst (getDataRange (mk_fake_stream [] 128)) = Inr (0, 0)"
    by blast
  moreover have "size_h (mk_fake_stream [pack T T A G] 128) * packed_size = 4"
    by (simp add: size_h_def mk_fake_stream_def packed_size_def)
  with getDataRange_bounds [of "mk_fake_stream [pack T T A G] 128"]
  have "fst (getDataRange (mk_fake_stream [pack T T A G] 128)) = Inr (0, 4)"
    by (simp add: length_TELOMERE_SEQ)
  ultimately show ?thesis
    using run fit by simp
qed

text \<open>
  C10. For two persons reporting 23 chromosomes each, \<open>compare\<close> never returns anything
  but the empty list: a list it returns is empty, its only failure is an out-of-bounds
  read of \<open>getDataRange\<close>, and with every stream delivered in one chunk it returns \<open>[]\<close>.
\<close>

theorem compare_returns_empty:
  assumes "chromosomes pa = 23" and "chromosomes pb = 23"
  shows "(\<forall>ds. fst (compare pa pb) = Inr ds \<longrightarrow> ds = []) \<and>
         (\<forall>e. fst (compare pa pb) = Inl e \<longrightarrow> (\<exists>i n. e = OutOfBounds i n)) \<and>
         ((\<forall>idx<23. single_chunk (chromosome pa idx) \<and> single_chunk (chromosome pb idx)) \<longrightarrow>
            fst (compare pa pb) = Inr [])"
proof -
  have cmp: "compare pa pb = compare_loop pa pb 0 [] []"
    using assms by (simp add: compare_def NUM_CHROMOSOMES_def)
  have "\<forall>ds. fst (compare pa pb) = Inr ds \<longrightarrow> ds = []"
    using compare_loop_Inr [of pa pb 0 "[]" "[]"] by (simp add: cmp)
  moreover have "\<forall>e. fst (compare pa pb) = Inl e \<longrightarrow> (\<exists>i n. e = OutOfBounds i n)"
  proof (intro allI impI)
    fix e
    assume "fst (compare pa pb) = Inl e"
    then have "e \<noteq> InvalidInput"
      using compare_loop_Inl [of pa pb 0 "[]" "[]" e] by (simp add: cmp)
    then show "\<exists>i n. e = OutOfBounds i n"
      by (cases e) auto
  qed
  moreover have "(\<forall>idx<23. single_chunk (chromosome pa idx) \<and> single_chunk (chromosome pb idx)) \<longrightarrow>
      fst (compare pa pb) = Inr []"
    using compare_loop_total [of pa pb 0 "[]" "[]"] by (simp add: cmp NUM_CHROMOSOMES_def)
  ultimately show ?thesis
    by blast
qed

theorem compare_returns_empty_witness:
  "fst (compare (sample_person 23 autosome_fixture (sized_stream 39000000))
          (sample_person 23 (mk_fake_stream [pack C C C C, pack C C C C] 128)
             (sized_stream 40000000))) = Inr []"
  using compare_returns_empty
      [of "sample_person 23 autosome_fixture (sized_stream 39000000)"
          "sample_person 23 (mk_fake_stream [pack C C C C, pack C C C C] 128)
             (sized_stream 40000000)"]
  by (simp add: sample_person_def single_chunk_sized_stream single_chunk_mk_fake_stream
      autosome_fixture_def)

end
